theory Spec2Isabelle
  imports Main "HOL-Library.Sublist"
begin

section \<open>The DynamoDB streaming pipeline of HarbourBridge\<close>

text \<open>
  A shallow embedding of the streaming code of package \<open>dynamodb\<close>
  (\<open>cutoverHelper\<close>, \<open>ProcessStream\<close>, \<open>ProcessShard\<close>, \<open>waitForParentShard\<close>,
  \<open>ProcessRecord\<close>, \<open>writeRecord\<close>, \<open>getMutation\<close>, \<open>removeMutation\<close>,
  \<open>writeMutation\<close>).

  Conventions.
  \<^item> A Go \<open>error\<close> is the text of its \<open>Error()\<close>; an \<open>error\<close> that may be nil is a
    \<open>string option\<close>. A \<open>*string\<close> that may be nil is a \<open>string option\<close> as well.
  \<^item> A run-time panic is a value of type \<open>panic\<close>; a function that can panic returns
    \<open>panic + 'a\<close>.
  \<^item> Every effect of a function (a call of the streams client, a call of a method of
    the shared \<open>StreamingInfo\<close>, a read of one of its fields, a sleep, the start of
    a goroutine) is an \<open>event\<close>; a function returns the events it performs, in order.
  \<^item> What the outside world answers (the streams client, the write callback, the
    fields other goroutines write) is a parameter. An answer may depend on the
    moment it is asked at: the number of events performed so far.
  \<^item> A loop that need not end takes fuel: the number of iterations it may still run.
\<close>

subsection \<open>Data\<close>

datatype panic = IndexOutOfRange nat nat
  \<comment> \<open>\<open>runtime error: index out of range [i] with length n\<close>\<close>

text \<open>\<open>schema.Key\<close> and \<open>schema.Table\<close>: the fields the streaming code reads.\<close>

record Key =
  Column :: string

record Table =
  ColNames :: "string list"
  PrimaryKeys :: "Key list"

text \<open>\<open>ddl.CreateTable\<close> is only handed on to \<open>cvtRow\<close>: a name and its columns.\<close>

datatype CreateTable = CreateTable string "string list"

text \<open>
  \<open>dynamodb.AttributeValue\<close> and the converted Spanner values (\<open>interface{}\<close>): the
  streaming code only moves them around and tests a converted value against nil, so
  a converted row is a \<open>SpVal option list\<close>.
\<close>

datatype AttributeValue = AttrS string | AttrN string | AttrBOOL bool | AttrNULL

datatype SpVal = SpString string | SpInt int | SpBool bool

type_synonym image = "(string \<times> AttributeValue) list"

text \<open>\<open>sp.Mutation\<close>, as built by \<open>sp.Insert\<close>, \<open>sp.InsertOrUpdate\<close> and \<open>sp.Delete\<close>
  with an \<open>sp.Key\<close>.\<close>

datatype Mutation =
    Insert string "string list" "SpVal option list"
  | InsertOrUpdate string "string list" "SpVal option list"
  | Delete string "SpVal list"

text \<open>\<open>dynamodbstreams.Record\<close> with the fields of its \<open>Dynamodb\<close> part,
  \<open>dynamodbstreams.Shard\<close>, \<open>dynamodbstreams.StreamDescription\<close> and
  \<open>dynamodbstreams.GetRecordsOutput\<close>.\<close>

record Record =
  EventName :: string
  SequenceNumber :: "string option"
  Keys :: image
  NewImage :: image

record Shard =
  ShardId :: string
  ParentShardId :: "string option"

record StreamDescription =
  Shards :: "Shard list"
  LastEvaluatedShardId :: "string option"

record GetRecordsOutput =
  Records :: "Record list"
  NextShardIterator :: "string option"

datatype event =
    EvSleep nat
      \<comment> \<open>\<open>time.Sleep(n * time.Second)\<close>\<close>
  | EvReadShardProcessed string "bool option"
      \<comment> \<open>the read \<open>streamInfo.ShardProcessed[id]\<close> and the entry found\<close>
  | EvReadUserExit bool
      \<comment> \<open>the read \<open>streamInfo.UserExit\<close>\<close>
  | EvSetShardStatus string bool
  | EvUnexpected string
  | EvStatsAddRecord string string
  | EvStatsAddBadRecord string string
  | EvStatsAddDroppedRecord string string
  | EvStatsAddRecordProcessed
  | EvCollectBadRecord string string "string list" "string list"
  | EvCollectDroppedRecord string string "string list" "SpVal option list" string
  | EvWrite Mutation "string option"
      \<comment> \<open>\<open>streamInfo.write(m)\<close> and the error it returned\<close>
  | EvDescribeStream "string option"
      \<comment> \<open>\<open>DescribeStream\<close> with its \<open>ExclusiveStartShardId\<close>\<close>
  | EvGoProcessShard Shard
      \<comment> \<open>\<open>go ProcessShard(..., shard, ...)\<close>\<close>
  | EvGetShardIterator "string option"
      \<comment> \<open>\<open>GetShardIterator\<close> with its \<open>SequenceNumber\<close>\<close>
  | EvGetRecords "string option"
      \<comment> \<open>\<open>GetRecords\<close> with its \<open>ShardIterator\<close>\<close>
  | EvProcessRecord Record
      \<comment> \<open>the call \<open>ProcessRecord(conv, streamInfo, record, srcTable)\<close>\<close>
  | EvUpdateProgress bool bool int
      \<comment> \<open>\<open>updateProgress(optimumCondition, firstCall, totalRecordsProcessed)\<close>\<close>

subsection \<open>Strings\<close>

text \<open>\<open>strings.Contains(s, substr)\<close>.\<close>

fun Contains :: "string \<Rightarrow> string \<Rightarrow> bool" where
  "Contains [] substr = (substr = [])"
| "Contains (c # s) substr = (prefix substr (c # s) \<or> Contains s substr)"

subsection \<open>Mutations\<close>

text \<open>
  The loop of \<open>removeMutation\<close> over \<open>spVals\<close>, from index \<open>i\<close> on:
  \<open>srcSchema.ColNames[i]\<close> is read for a non-nil value only, and panics past the end
  of the column names.
\<close>

fun keepNonNil :: "string list \<Rightarrow> SpVal option list \<Rightarrow> nat \<Rightarrow> panic + (string list \<times> SpVal list)" where
  "keepNonNil colNames [] i = Inr ([], [])"
| "keepNonNil colNames (None # vs) i = keepNonNil colNames vs (Suc i)"
| "keepNonNil colNames (Some v # vs) i =
     (if i < length colNames then
        (case keepNonNil colNames vs (Suc i) of
           Inl p \<Rightarrow> Inl p
         | Inr (srcKeys, reqSpVals) \<Rightarrow> Inr (colNames ! i # srcKeys, v # reqSpVals))
      else Inl (IndexOutOfRange i (length colNames)))"

text \<open>\<open>reqSpVals[0], reqSpVals[1] = reqSpVals[1], reqSpVals[0]\<close>: the right-hand side
  is read first, index 1 before index 0.\<close>

fun swapFirstTwo :: "SpVal list \<Rightarrow> panic + SpVal list" where
  "swapFirstTwo (a # b # rest) = Inr (b # a # rest)"
| "swapFirstTwo vs = Inl (IndexOutOfRange 1 (length vs))"

definition removeMutation :: "Table \<Rightarrow> string \<Rightarrow> string \<Rightarrow> SpVal option list \<Rightarrow> panic + Mutation" where
  "removeMutation srcSchema spTable srcTable spVals =
     (case keepNonNil (ColNames srcSchema) spVals 0 of
        Inl p \<Rightarrow> Inl p
      | Inr (srcKeys, reqSpVals) \<Rightarrow>
          (case PrimaryKeys srcSchema of
             [] \<Rightarrow> Inl (IndexOutOfRange 0 0)
           | pk # _ \<Rightarrow>
               (case srcKeys of
                  [] \<Rightarrow> Inl (IndexOutOfRange 0 0)
                | k # _ \<Rightarrow>
                    (case (if Column pk \<noteq> k then swapFirstTwo reqSpVals else Inr reqSpVals) of
                       Inl p \<Rightarrow> Inl p
                     | Inr vals \<Rightarrow>
                         (case vals of
                            [] \<Rightarrow> Inl (IndexOutOfRange 0 0)
                          | [a] \<Rightarrow> Inr (Delete spTable [a])
                          | a # b # _ \<Rightarrow> Inr (Delete spTable [a, b]))))))"

definition getMutation ::
  "string \<Rightarrow> string \<Rightarrow> string \<Rightarrow> string list \<Rightarrow> SpVal option list \<Rightarrow> Table \<Rightarrow> panic + Mutation" where
  "getMutation eventName srcTable spTable spCols spVals srcSchema =
     (if eventName = ''INSERT'' then Inr (Insert spTable spCols spVals)
      else if eventName = ''MODIFY'' then Inr (InsertOrUpdate spTable spCols spVals)
      else removeMutation srcSchema spTable srcTable spVals)"

subsection \<open>Writing a mutation\<close>

definition parentDataMissingError :: "string \<Rightarrow> bool" where
  "parentDataMissingError err =
     (Contains err ''NotFound'' \<and> Contains err ''Parent row'' \<and> Contains err ''is missing'')"

text \<open>
  The write callback \<open>streamInfo.write\<close> answers a mutation with an error or nil; its
  answer may differ from one call to the next, so it is a function of the mutation
  and of the number of calls \<open>writeMutation\<close> has made before.

  The loop of \<open>writeMutation\<close>: the arguments are the callback, the mutation, what is
  left of \<open>retryLimit\<close>, the number of calls made and the current \<open>err\<close>.
\<close>

type_synonym writer = "Mutation \<Rightarrow> nat \<Rightarrow> string option"

fun writeMutation_loop ::
  "writer \<Rightarrow> Mutation \<Rightarrow> nat \<Rightarrow> nat \<Rightarrow> string option \<Rightarrow> string option \<times> event list" where
  "writeMutation_loop write m 0 n err = (err, [])"
| "writeMutation_loop write m (Suc retryLimit) n err =
     (case write m n of
        None \<Rightarrow> (None, [EvWrite m None])
      | Some e \<Rightarrow>
          if \<not> parentDataMissingError e then (Some e, [EvWrite m (Some e)])
          else
            (case writeMutation_loop write m retryLimit (Suc n) (Some e) of
               (err', evs) \<Rightarrow> (err', EvWrite m (Some e) # EvSleep 4 # evs)))"

definition writeMutation :: "writer \<Rightarrow> Mutation \<Rightarrow> string option \<times> event list" where
  "writeMutation write m = writeMutation_loop write m 1000 0 None"

definition writeRecord ::
  "writer option \<Rightarrow> string \<Rightarrow> string \<Rightarrow> string \<Rightarrow> string list \<Rightarrow> SpVal option list \<Rightarrow> Table
     \<Rightarrow> panic + event list" where
  "writeRecord write srcTable spTable eventName spCols spVals srcSchema =
     (case write of
        None \<Rightarrow>
          Inr [EvStatsAddBadRecord srcTable eventName,
               EvUnexpected ''Internal error: writeRecord called but writer not configured'']
      | Some w \<Rightarrow>
          (case getMutation eventName srcTable spTable spCols spVals srcSchema of
             Inl p \<Rightarrow> Inl p
           | Inr m \<Rightarrow>
               (case writeMutation w m of
                  (None, evs) \<Rightarrow> Inr evs
                | (Some err, evs) \<Rightarrow>
                    Inr (evs @ [EvStatsAddDroppedRecord srcTable eventName,
                                EvCollectDroppedRecord eventName spTable spCols spVals err]))))"

subsection \<open>Processing a record\<close>

text \<open>
  What \<open>getColsAndSchemas\<close> and \<open>ProcessRecord\<close> take from code outside these
  sources: the maps \<open>conv.SrcSchema\<close> (a missing table reads as the zero
  \<open>schema.Table\<close>) and \<open>conv.SpSchema\<close>, the functions \<open>internal.GetSpannerTable\<close> and
  \<open>internal.GetSpannerCols\<close>, each returning a value and an error, and \<open>cvtRow\<close>,
  returning the converted values, the bad columns and the source values as strings.
\<close>

record Conv =
  SrcSchema :: "string \<Rightarrow> Table"
  SpSchema :: "string \<Rightarrow> CreateTable option"
  GetSpannerTable :: "string \<Rightarrow> string \<times> string option"
  GetSpannerCols :: "string \<Rightarrow> string list \<Rightarrow> string list \<times> string option"

type_synonym converter =
  "image \<Rightarrow> Table \<Rightarrow> CreateTable \<Rightarrow> string list \<Rightarrow> SpVal option list \<times> string list \<times> string list"

text \<open>
  \<open>getColsAndSchemas\<close> builds its error with \<open>fmt.Errorf(fmt.Sprintf(...))\<close>: the text
  is formatted twice. The first pass, \<open>Sprintf\<close>, prints an error under \<open>%s\<close> (a nil
  error as \<open>%!s(<nil>)\<close>) and a boolean under \<open>%t\<close>. The second pass, \<open>Errorf\<close>, reads
  the result as a format with no operands: a format that holds no \<open>%\<close> is copied as
  it is; what \<open>fmt\<close> makes of a \<open>%\<close> and the bytes after it (\<open>%!v(MISSING)\<close> for a verb
  \<open>v\<close>, \<open>%\<close> for \<open>%%\<close>, \<open>%!(NOVERB)\<close> at the end, flags, widths, indexes) is the work of
  the library's verb parser, which is a parameter here. So the second pass reads
  again the \<open>%!s(<nil>)\<close> that the first pass prints for a nil error, and every \<open>%\<close>
  of an error text.
\<close>

type_synonym formatter = "string \<Rightarrow> string"

definition showError :: "string option \<Rightarrow> string" where
  "showError err = (case err of None \<Rightarrow> ''%!s(<nil>)'' | Some e \<Rightarrow> e)"

definition showBool :: "bool \<Rightarrow> string" where
  "showBool b = (if b then ''true'' else ''false'')"

definition Errorf :: "formatter \<Rightarrow> string \<Rightarrow> string" where
  "Errorf verbs format = (if CHR ''%'' \<in> set format then verbs format else format)"

definition getColsAndSchemas ::
  "Conv \<Rightarrow> formatter \<Rightarrow> string
     \<Rightarrow> Table \<times> string \<times> string list \<times> CreateTable \<times> string option" where
  "getColsAndSchemas conv verbs srcTable =
     (let srcSchema = SrcSchema conv srcTable;
          (spTable, err1) = GetSpannerTable conv srcTable;
          (spCols, err2) = GetSpannerCols conv srcTable (ColNames srcSchema);
          ok = (SpSchema conv spTable \<noteq> None);
          spSchema = (case SpSchema conv spTable of None \<Rightarrow> CreateTable [] [] | Some t \<Rightarrow> t);
          err = (if err1 \<noteq> None \<or> err2 \<noteq> None \<or> \<not> ok
                 then Some (Errorf verbs
                              (''err1='' @ showError err1 @ '', err2='' @ showError err2
                               @ '', ok='' @ showBool ok))
                 else None)
      in (srcSchema, spTable, spCols, spSchema, err))"

definition ProcessRecord ::
  "Conv \<Rightarrow> formatter \<Rightarrow> converter \<Rightarrow> writer option \<Rightarrow> Record \<Rightarrow> string
     \<Rightarrow> panic + event list" where
  "ProcessRecord conv verbs cvtRow write record srcTable =
     (let eventName = EventName record
      in case getColsAndSchemas conv verbs srcTable of
           (srcSchema, spTable, spCols, spSchema, err) \<Rightarrow>
             (case err of
                Some e \<Rightarrow>
                  Inr [EvStatsAddRecord srcTable eventName,
                       EvUnexpected (''Can't get cols and schemas for table '' @ srcTable
                                     @ '': '' @ e)]
              | None \<Rightarrow>
                  (let srcImage = (if eventName = ''REMOVE'' then Keys record
                                   else NewImage record)
                   in case cvtRow srcImage srcSchema spSchema spCols of
                        (spVals, badCols, srcStrVals) \<Rightarrow>
                          if length badCols = 0 then
                            (case writeRecord write srcTable spTable eventName spCols spVals
                                    srcSchema of
                               Inl p \<Rightarrow> Inl p
                             | Inr evs \<Rightarrow>
                                 Inr (EvStatsAddRecord srcTable eventName # evs
                                      @ [EvStatsAddRecordProcessed]))
                          else
                            Inr [EvStatsAddRecord srcTable eventName,
                                 EvStatsAddBadRecord srcTable eventName,
                                 EvCollectBadRecord eventName srcTable (ColNames srcSchema)
                                   srcStrVals,
                                 EvStatsAddRecordProcessed])))"

subsection \<open>The counters of the shared state\<close>

text \<open>
  Modelled from the spec: the struct \<open>StreamingInfo\<close> and its methods
  \<open>StatsAddRecord\<close>, \<open>StatsAddBadRecord\<close>, \<open>StatsAddDroppedRecord\<close> and
  \<open>StatsAddRecordProcessed\<close> are not in the sources. The spec: \<open>Records\<close>,
  \<open>BadRecords\<close> and \<open>DroppedRecords\<close> map a source table name to a map from the
  event kind to a count; \<open>RecordsProcessed\<close> is a monotonic total, incremented by
  \<open>StatsAddRecordProcessed\<close>.
\<close>

record StreamingInfo =
  RecordsStats :: "string \<Rightarrow> string \<Rightarrow> int"
  BadRecords :: "string \<Rightarrow> string \<Rightarrow> int"
  DroppedRecords :: "string \<Rightarrow> string \<Rightarrow> int"
  recordsProcessed :: int

definition bump :: "(string \<Rightarrow> string \<Rightarrow> int) \<Rightarrow> string \<Rightarrow> string \<Rightarrow> string \<Rightarrow> string \<Rightarrow> int" where
  "bump counts table kind = (counts (table := (counts table) (kind := counts table kind + 1)))"

fun perform :: "event \<Rightarrow> StreamingInfo \<Rightarrow> StreamingInfo" where
  "perform (EvStatsAddRecord table kind) info =
     info\<lparr>RecordsStats := bump (RecordsStats info) table kind\<rparr>"
| "perform (EvStatsAddBadRecord table kind) info =
     info\<lparr>BadRecords := bump (BadRecords info) table kind\<rparr>"
| "perform (EvStatsAddDroppedRecord table kind) info =
     info\<lparr>DroppedRecords := bump (DroppedRecords info) table kind\<rparr>"
| "perform EvStatsAddRecordProcessed info =
     info\<lparr>recordsProcessed := recordsProcessed info + 1\<rparr>"
| "perform ev info = info"

fun performAll :: "event list \<Rightarrow> StreamingInfo \<Rightarrow> StreamingInfo" where
  "performAll [] info = info"
| "performAll (ev # evs) info = performAll evs (perform ev info)"

subsection \<open>The cutover advisor\<close>

text \<open>
  The variables of \<open>cutoverHelper\<close> are \<open>int64\<close>: the result of an addition, a
  subtraction or a multiplication is taken modulo \<open>2 ^ 64\<close> into the signed range,
  and \<open>%\<close> truncates towards zero. \<open>arr\<close> has five elements; an index below zero
  panics.
\<close>

definition wrap64 :: "int \<Rightarrow> int" where
  "wrap64 x = (x + 2 ^ 63) mod 2 ^ 64 - 2 ^ 63"

definition go_rem :: "int \<Rightarrow> int \<Rightarrow> int" where
  "go_rem a b = sgn a * (\<bar>a\<bar> mod \<bar>b\<bar>)"

record cutover =
  timer :: int
  firstFiveMin :: int
  lastFiveMin :: int
  tillLastMin :: int
  arr :: "int list"

definition cutover_init :: cutover where
  "cutover_init =
     \<lparr>timer = 0, firstFiveMin = 0, lastFiveMin = 0, tillLastMin = 0, arr = [0, 0, 0, 0, 0]\<rparr>"

text \<open>
  One pass of the loop body after the test of \<open>UserExit\<close>, for the value read from
  \<open>streamInfo.recordsProcessed\<close>: the new variables, \<open>optimumCondition\<close> and the total
  handed to \<open>updateProgress\<close>.
\<close>

definition cutover_tick :: "int \<Rightarrow> cutover \<Rightarrow> panic + (cutover \<times> bool \<times> int)" where
  "cutover_tick recordsProcessedNow s =
     (let counter = go_rem (timer s) 5
      in if counter < 0 \<or> int (length (arr s)) \<le> counter
         then Inl (IndexOutOfRange (nat counter) (length (arr s)))
         else
           (let i = nat counter;
                lastFiveMin1 = wrap64 (lastFiveMin s - arr s ! i);
                delta = wrap64 (recordsProcessedNow - tillLastMin s);
                arr' = (arr s)[i := delta];
                tillLastMin' = wrap64 (tillLastMin s + delta);
                lastFiveMin' = wrap64 (lastFiveMin1 + delta);
                firstFiveMin' = (if timer s < 5 then wrap64 (firstFiveMin s + delta)
                                 else firstFiveMin s);
                lastMin = delta;
                optimumCondition =
                  (wrap64 (lastFiveMin' * 100) \<le> wrap64 (5 * firstFiveMin') \<or> lastMin = 0)
            in Inr (\<lparr>timer = wrap64 (timer s + 1), firstFiveMin = firstFiveMin',
                      lastFiveMin = lastFiveMin', tillLastMin = tillLastMin', arr = arr'\<rparr>,
                    optimumCondition, tillLastMin')))"

text \<open>
  The loop of \<open>cutoverHelper\<close>, for the values it reads at each wake-up: \<open>UserExit\<close> and
  \<open>recordsProcessed\<close>. When the list is used up the loop has not ended: the advisor
  is asleep.
\<close>

fun cutoverHelper_loop :: "(bool \<times> int) list \<Rightarrow> cutover \<Rightarrow> panic + event list" where
  "cutoverHelper_loop [] s = Inr []"
| "cutoverHelper_loop ((userExit, recordsProcessedNow) # reads) s =
     (if userExit then Inr [EvSleep 60, EvReadUserExit True]
      else
        (case cutover_tick recordsProcessedNow s of
           Inl p \<Rightarrow> Inl p
         | Inr (s', optimumCondition, totalRecordsProcessed) \<Rightarrow>
             (case cutoverHelper_loop reads s' of
                Inl p \<Rightarrow> Inl p
              | Inr evs \<Rightarrow>
                  Inr ([EvSleep 60, EvReadUserExit False,
                        EvUpdateProgress optimumCondition False totalRecordsProcessed] @ evs))))"

definition cutoverHelper :: "int \<Rightarrow> (bool \<times> int) list \<Rightarrow> panic + event list" where
  "cutoverHelper recordsProcessedAtStart reads =
     (case cutoverHelper_loop reads cutover_init of
        Inl p \<Rightarrow> Inl p
      | Inr evs \<Rightarrow> Inr (EvUpdateProgress False True recordsProcessedAtStart # evs))"

text \<open>The variables after the ticks for a list of readings of \<open>recordsProcessed\<close>.\<close>

fun cutover_after :: "int list \<Rightarrow> cutover \<Rightarrow> panic + cutover" where
  "cutover_after [] s = Inr s"
| "cutover_after (r # rs) s =
     (case cutover_tick r s of Inl p \<Rightarrow> Inl p | Inr (s', _, _) \<Rightarrow> cutover_after rs s')"

subsection \<open>The outside world of a goroutine\<close>

text \<open>
  The streams client (\<open>DescribeStream\<close>, \<open>GetShardIterator\<close>, \<open>GetRecords\<close>: an error
  or a result) and the fields of the shared state that other goroutines write
  (\<open>UserExit\<close>, \<open>ShardProcessed\<close>), each as a function of the moment it is asked at.
\<close>

datatype GetShardIteratorInput =
    TrimHorizon string string
      \<comment> \<open>\<open>ShardId\<close>, \<open>StreamArn\<close>\<close>
  | AfterSequenceNumber string string string
      \<comment> \<open>\<open>SequenceNumber\<close>, \<open>ShardId\<close>, \<open>StreamArn\<close>\<close>

record World =
  DescribeStream :: "nat \<Rightarrow> string option \<Rightarrow> string \<Rightarrow> string + StreamDescription"
  GetShardIterator :: "nat \<Rightarrow> GetShardIteratorInput \<Rightarrow> string + string option"
  GetRecords :: "nat \<Rightarrow> string option \<Rightarrow> string + GetRecordsOutput"
  UserExit :: "nat \<Rightarrow> bool"
  ShardProcessed :: "nat \<Rightarrow> string \<Rightarrow> bool option"

text \<open>
  The state of a loop: the events performed so far and the local variables. A loop
  body ends in \<open>break\<close> or goes round again; a loop with fuel has returned, or is
  still running when the fuel is used up.
\<close>

record loop_state =
  events :: "event list"
  passAfterUserExit :: bool

record discovery = loop_state +
  lastProcessedShardId :: "string option"

record worker = loop_state +
  lastEvaluatedSequenceNumber :: "string option"
  retryCount :: int

datatype 'a ctl = Break 'a | Continue 'a

datatype 'a run = Returned 'a | OutOfFuel 'a

definition now :: "'a loop_state_scheme \<Rightarrow> nat" where
  "now st = length (events st)"

definition emit :: "event list \<Rightarrow> 'a loop_state_scheme \<Rightarrow> 'a loop_state_scheme" where
  "emit evs st = st\<lparr>events := events st @ evs\<rparr>"

subsection \<open>The shard discovery loop\<close>

definition fetchShards :: "World \<Rightarrow> nat \<Rightarrow> string option \<Rightarrow> string \<Rightarrow> string + StreamDescription" where
  "fetchShards w t lastProcessedShardId' streamArn =
     (case DescribeStream w t lastProcessedShardId' streamArn of
        Inl err \<Rightarrow> Inl (''unexpected call to DescribeStream: '' @ err)
      | Inr result \<Rightarrow> Inr result)"

text \<open>The loop over \<open>result.Shards\<close>.\<close>

fun dispatch :: "Shard list \<Rightarrow> discovery \<Rightarrow> discovery" where
  "dispatch [] st = st"
| "dispatch (shard # shards) st =
     dispatch shards
       (emit [EvGoProcessShard shard] (st\<lparr>lastProcessedShardId := Some (ShardId shard)\<rparr>))"

definition ProcessStream_iteration :: "World \<Rightarrow> string \<Rightarrow> string \<Rightarrow> discovery \<Rightarrow> discovery ctl" where
  "ProcessStream_iteration w streamArn srcTable st =
     (let st0 = emit [EvDescribeStream (lastProcessedShardId st)] st
      in case fetchShards w (now st) (lastProcessedShardId st) streamArn of
           Inl err \<Rightarrow>
             Break (emit [EvUnexpected (''Couldn't fetch shards for table '' @ srcTable
                                        @ '': '' @ err)] st0)
         | Inr result \<Rightarrow>
             (let st1 = dispatch (Shards result) st0
              in if LastEvaluatedShardId result = None \<and> passAfterUserExit st1 then Break st1
                 else if UserExit w (now st1)
                 then Continue (emit [EvReadUserExit True] (st1\<lparr>passAfterUserExit := True\<rparr>))
                 else if length (Shards result) = 0
                 then Continue (emit [EvReadUserExit False, EvSleep 10] st1)
                 else Continue (emit [EvReadUserExit False] st1)))"

fun ProcessStream_loop :: "nat \<Rightarrow> World \<Rightarrow> string \<Rightarrow> string \<Rightarrow> discovery \<Rightarrow> discovery run" where
  "ProcessStream_loop 0 w streamArn srcTable st = OutOfFuel st"
| "ProcessStream_loop (Suc fuel) w streamArn srcTable st =
     (case ProcessStream_iteration w streamArn srcTable st of
        Break st' \<Rightarrow> Returned st'
      | Continue st' \<Rightarrow> ProcessStream_loop fuel w streamArn srcTable st')"

text \<open>\<open>ProcessStream\<close> up to its \<open>wgShard.Wait()\<close>, which joins the workers it started.\<close>

definition ProcessStream :: "nat \<Rightarrow> World \<Rightarrow> string \<Rightarrow> string \<Rightarrow> discovery run" where
  "ProcessStream fuel w streamArn srcTable =
     ProcessStream_loop fuel w streamArn srcTable
       \<lparr>events = [], passAfterUserExit = False, lastProcessedShardId = None\<rparr>"

subsection \<open>The shard worker\<close>

definition checkTrimmedDataError :: "string \<Rightarrow> bool" where
  "checkTrimmedDataError err = Contains err ''TrimmedDataAccessException''"

fun waitForParentShard_loop :: "nat \<Rightarrow> World \<Rightarrow> string \<Rightarrow> event list \<Rightarrow> event list run" where
  "waitForParentShard_loop 0 w parentShard evs = OutOfFuel evs"
| "waitForParentShard_loop (Suc fuel) w parentShard evs =
     (let entry = ShardProcessed w (length evs) parentShard;
          done = (case entry of None \<Rightarrow> False | Some b \<Rightarrow> b);
          evs' = evs @ [EvReadShardProcessed parentShard entry]
      in if done then Returned evs'
         else waitForParentShard_loop fuel w parentShard (evs' @ [EvSleep 6]))"

definition waitForParentShard :: "nat \<Rightarrow> World \<Rightarrow> string option \<Rightarrow> event list \<Rightarrow> event list run" where
  "waitForParentShard fuel w parentShard evs =
     (case parentShard of
        None \<Rightarrow> Returned evs
      | Some p \<Rightarrow> waitForParentShard_loop fuel w p evs)"

definition getShardIterator :: "World \<Rightarrow> nat \<Rightarrow> string option \<Rightarrow> string \<Rightarrow> string \<Rightarrow> string + string option" where
  "getShardIterator w t lastEvaluatedSequenceNumber' shardId streamArn =
     (let getShardIteratorInput =
            (case lastEvaluatedSequenceNumber' of
               None \<Rightarrow> TrimHorizon shardId streamArn
             | Some sequenceNumber \<Rightarrow> AfterSequenceNumber sequenceNumber shardId streamArn)
      in case GetShardIterator w t getShardIteratorInput of
           Inl err \<Rightarrow> Inl (''unexpected call to GetShardIterator: '' @ err)
         | Inr shardIterator \<Rightarrow> Inr shardIterator)"

definition getRecords :: "World \<Rightarrow> nat \<Rightarrow> string option \<Rightarrow> string + GetRecordsOutput" where
  "getRecords w t shardIterator =
     (case GetRecords w t shardIterator of
        Inl err \<Rightarrow> Inl (''unexpected call to GetRecords: '' @ err)
      | Inr result \<Rightarrow> Inr result)"

text \<open>The loop over \<open>records\<close>. What \<open>ProcessRecord\<close> does with a record is
  \<open>ProcessRecord\<close> above; it returns nothing to the worker.\<close>

fun processRecords :: "Record list \<Rightarrow> worker \<Rightarrow> worker" where
  "processRecords [] st = st"
| "processRecords (record # records) st =
     processRecords records
       (emit [EvProcessRecord record] st\<lparr>lastEvaluatedSequenceNumber := SequenceNumber record\<rparr>)"

definition ProcessShard_iteration :: "World \<Rightarrow> string \<Rightarrow> string \<Rightarrow> string \<Rightarrow> worker \<Rightarrow> worker ctl" where
  "ProcessShard_iteration w shardId streamArn srcTable st =
     (let st0 = emit [EvGetShardIterator (lastEvaluatedSequenceNumber st)] st
      in case getShardIterator w (now st) (lastEvaluatedSequenceNumber st) shardId streamArn of
           Inl err \<Rightarrow>
             if checkTrimmedDataError err
             then Continue (st0\<lparr>lastEvaluatedSequenceNumber := None\<rparr>)
             else Break (emit [EvUnexpected (''Couldn't get shardIterator for table ''
                                             @ srcTable @ '': '' @ err)] st0)
         | Inr shardIterator \<Rightarrow>
             (let st1 = emit [EvGetRecords shardIterator] st0
              in case getRecords w (now st0) shardIterator of
                   Inl err \<Rightarrow>
                     if checkTrimmedDataError err \<and> retryCount st1 < 5
                     then Continue (st1\<lparr>lastEvaluatedSequenceNumber := None,
                                         retryCount := retryCount st1 + 1\<rparr>)
                     else Break (emit [EvUnexpected (''Couldn't fetch records for table ''
                                                     @ srcTable @ '': '' @ err)] st1)
                 | Inr getRecordsOutput \<Rightarrow>
                     (let records = Records getRecordsOutput;
                          st2 = processRecords records (st1\<lparr>retryCount := 0\<rparr>)
                      in if NextShardIterator getRecordsOutput = None \<or> passAfterUserExit st2
                         then Break st2
                         else if UserExit w (now st2)
                         then Continue (emit [EvReadUserExit True]
                                          (st2\<lparr>passAfterUserExit := True\<rparr>))
                         else if length records = 0
                         then Continue (emit [EvReadUserExit False, EvSleep 5] st2)
                         else Continue (emit [EvReadUserExit False] st2))))"

fun ProcessShard_loop :: "nat \<Rightarrow> World \<Rightarrow> string \<Rightarrow> string \<Rightarrow> string \<Rightarrow> worker \<Rightarrow> worker run" where
  "ProcessShard_loop 0 w shardId streamArn srcTable st = OutOfFuel st"
| "ProcessShard_loop (Suc fuel) w shardId streamArn srcTable st =
     (case ProcessShard_iteration w shardId streamArn srcTable st of
        Break st' \<Rightarrow> Returned st'
      | Continue st' \<Rightarrow> ProcessShard_loop fuel w shardId streamArn srcTable st')"

text \<open>\<open>ProcessShard\<close>: the events of the worker. Each of its two loops may run \<open>fuel\<close>
  times.\<close>

definition ProcessShard :: "nat \<Rightarrow> World \<Rightarrow> Shard \<Rightarrow> string \<Rightarrow> string \<Rightarrow> event list run" where
  "ProcessShard fuel w shard streamArn srcTable =
     (case waitForParentShard fuel w (ParentShardId shard) [] of
        OutOfFuel evs \<Rightarrow> OutOfFuel evs
      | Returned evs \<Rightarrow>
          (let shardId = ShardId shard
           in case ProcessShard_loop fuel w shardId streamArn srcTable
                     \<lparr>events = evs @ [EvSetShardStatus shardId False],
                      passAfterUserExit = False,
                      lastEvaluatedSequenceNumber = None, retryCount = 0\<rparr> of
                OutOfFuel st \<Rightarrow> OutOfFuel (events st)
              | Returned st \<Rightarrow> Returned (events st @ [EvSetShardStatus shardId True])))"

subsection \<open>Notions used in the statements\<close>

text \<open>The non-nil entries of a converted row, each with its source column, in column
  order.\<close>

definition nonNil :: "Table \<Rightarrow> SpVal option list \<Rightarrow> (string \<times> SpVal) list" where
  "nonNil srcSchema spVals =
     map (\<lambda>cv. (fst cv, the (snd cv)))
       (filter (\<lambda>cv. snd cv \<noteq> None) (zip (ColNames srcSchema) spVals))"

text \<open>An answer of the write callback after which \<open>writeMutation\<close> goes round again, and
  the events of the first \<open>k\<close> such rounds.\<close>

definition retryable :: "string option \<Rightarrow> bool" where
  "retryable err = (case err of None \<Rightarrow> False | Some e \<Rightarrow> parentDataMissingError e)"

definition attempts :: "writer \<Rightarrow> Mutation \<Rightarrow> nat \<Rightarrow> event list" where
  "attempts write m k = concat (map (\<lambda>i. [EvWrite m (write m i), EvSleep 4]) [0..<k])"

text \<open>The number of calls of \<open>StatsAddRecordProcessed\<close> among some events.\<close>

definition processedCalls :: "event list \<Rightarrow> nat" where
  "processedCalls evs = length (filter (\<lambda>ev. ev = EvStatsAddRecordProcessed) evs)"

text \<open>The error of \<open>getColsAndSchemas\<close>: nil when the schemas of the table resolve.\<close>

definition schemaError :: "Conv \<Rightarrow> formatter \<Rightarrow> string \<Rightarrow> string option" where
  "schemaError conv verbs srcTable =
     (case getColsAndSchemas conv verbs srcTable of
        (srcSchema, spTable, spCols, spSchema, err) \<Rightarrow> err)"

text \<open>What became of a record: its mutation was applied (a call of the write callback
  returned nil), it was counted as bad, it was counted as dropped.\<close>

fun isApplied :: "event \<Rightarrow> bool" where
  "isApplied (EvWrite m None) = True"
| "isApplied ev = False"

fun isBadRecord :: "event \<Rightarrow> bool" where
  "isBadRecord (EvStatsAddBadRecord table kind) = True"
| "isBadRecord ev = False"

fun isDroppedRecord :: "event \<Rightarrow> bool" where
  "isDroppedRecord (EvStatsAddDroppedRecord table kind) = True"
| "isDroppedRecord ev = False"

text \<open>Kinds of events, the number of events of a kind, and the events a loop has added
  to those of an earlier state.\<close>

fun isDescribe :: "event \<Rightarrow> bool" where
  "isDescribe (EvDescribeStream start) = True"
| "isDescribe ev = False"

fun isGetRecords :: "event \<Rightarrow> bool" where
  "isGetRecords (EvGetRecords shardIterator) = True"
| "isGetRecords ev = False"

fun isUnexpected :: "event \<Rightarrow> bool" where
  "isUnexpected (EvUnexpected msg) = True"
| "isUnexpected ev = False"

fun isSleep :: "event \<Rightarrow> bool" where
  "isSleep (EvSleep n) = True"
| "isSleep ev = False"

definition calls :: "(event \<Rightarrow> bool) \<Rightarrow> event list \<Rightarrow> nat" where
  "calls P evs = length (filter P evs)"

definition since :: "'a loop_state_scheme \<Rightarrow> 'b loop_state_scheme \<Rightarrow> event list" where
  "since st st' = drop (length (events st)) (events st')"

text \<open>The state a run has reached, returned or not.\<close>

definition state :: "'a run \<Rightarrow> 'a" where
  "state r = (case r of Returned st \<Rightarrow> st | OutOfFuel st \<Rightarrow> st)"

text \<open>The shards handed to workers in a trace, in order, and the shards listed by the
  answers to the \<open>DescribeStream\<close> calls of the trace; the moment of a call is its
  position in the trace. \<open>startsAfterLast\<close>: every \<open>DescribeStream\<close> call asks for the
  shards after the last shard handed out before it.\<close>

definition dispatched :: "event list \<Rightarrow> Shard list" where
  "dispatched evs = concat (map (\<lambda>ev. case ev of EvGoProcessShard s \<Rightarrow> [s] | _ \<Rightarrow> []) evs)"

definition listedAt :: "World \<Rightarrow> string \<Rightarrow> event list \<Rightarrow> nat \<Rightarrow> Shard list" where
  "listedAt w streamArn evs i =
     (case evs ! i of
        EvDescribeStream start \<Rightarrow>
          (case DescribeStream w i start streamArn of Inl err \<Rightarrow> [] | Inr result \<Rightarrow> Shards result)
      | _ \<Rightarrow> [])"

definition listed :: "World \<Rightarrow> string \<Rightarrow> event list \<Rightarrow> Shard list" where
  "listed w streamArn evs = concat (map (listedAt w streamArn evs) [0..<length evs])"

definition lastDispatched :: "event list \<Rightarrow> string option" where
  "lastDispatched evs =
     (if dispatched evs = [] then None else Some (ShardId (last (dispatched evs))))"

definition startsAfterLast :: "event list \<Rightarrow> bool" where
  "startsAfterLast evs =
     (\<forall>i<length evs. \<forall>start. evs ! i = EvDescribeStream start \<longrightarrow>
        start = lastDispatched (take i evs))"

text \<open>Worlds in which every \<open>GetShardIterator\<close> call fails with a trimmed-data error, every
  \<open>GetShardIterator\<close> call succeeds, every \<open>GetRecords\<close> call fails with a trimmed-data
  error.\<close>

definition alwaysTrimmedIterator :: "World \<Rightarrow> bool" where
  "alwaysTrimmedIterator w =
     (\<forall>t input. \<exists>err. GetShardIterator w t input = Inl err \<and> Contains err ''TrimmedDataAccessException'')"

definition iteratorGranted :: "World \<Rightarrow> bool" where
  "iteratorGranted w = (\<forall>t input. \<exists>shardIterator. GetShardIterator w t input = Inr shardIterator)"

definition alwaysTrimmedRecords :: "World \<Rightarrow> bool" where
  "alwaysTrimmedRecords w =
     (\<forall>t shardIterator. \<exists>err. GetRecords w t shardIterator = Inl err \<and>
        Contains err ''TrimmedDataAccessException'')"

text \<open>The events of \<open>k\<close> rounds of \<open>waitForParentShard\<close> that find the parent not yet
  processed, the first of them at moment \<open>t\<close>: a read of the entry, then a sleep of 6
  seconds.\<close>

fun polls :: "World \<Rightarrow> string \<Rightarrow> nat \<Rightarrow> nat \<Rightarrow> event list" where
  "polls w p t 0 = []"
| "polls w p t (Suc k) =
     [EvReadShardProcessed p (ShardProcessed w t p), EvSleep 6] @ polls w p (t + 2) k"




text \<open>
  The cutover advisor in the words of the claim, for the readings \<open>rs\<close> of
  \<open>recordsProcessed\<close> at the ticks 0, 1, ...: the reading before tick \<open>k\<close> (0 before
  the first), the one-minute delta of tick \<open>k\<close>, the sum of the most recent five
  deltas at tick \<open>k\<close> (of all of them while there are fewer), the sum of the first
  five deltas, and the optimum flag.
\<close>

definition prevReading :: "int list \<Rightarrow> nat \<Rightarrow> int" where
  "prevReading rs k = (if k = 0 then 0 else rs ! (k - 1))"

definition minuteDelta :: "int list \<Rightarrow> nat \<Rightarrow> int" where
  "minuteDelta rs k = rs ! k - prevReading rs k"

definition lastFiveDeltas :: "int list \<Rightarrow> nat \<Rightarrow> int" where
  "lastFiveDeltas rs k = sum_list (map (minuteDelta rs) [k - 4..<Suc k])"

definition firstFiveDeltas :: "int list \<Rightarrow> nat \<Rightarrow> int" where
  "firstFiveDeltas rs k = sum_list (map (minuteDelta rs) [0..<min (Suc k) 5])"

definition optimumSpec :: "int list \<Rightarrow> nat \<Rightarrow> bool" where
  "optimumSpec rs k =
     (100 * lastFiveDeltas rs k \<le> 5 * firstFiveDeltas rs k \<or> minuteDelta rs k = 0)"

text \<open>
  The variables of \<open>cutoverHelper\<close> after \<open>n\<close> ticks: \<open>arr\<close> is a ring of the last five
  deltas, the delta of tick \<open>j\<close> at index \<open>j mod 5\<close>, \<open>lastFiveMin\<close> is their sum and
  \<open>firstFiveMin\<close> the sum of the first five deltas. \<open>ticks\<close>: the events of the ticks
  \<open>a\<close> to \<open>b - 1\<close>. \<open>plausible\<close>: the readings are counts below \<open>2 ^ 56\<close> and there are
  fewer than \<open>2 ^ 63\<close> of them, so that no \<open>int64\<close> operation of the advisor wraps.
\<close>

definition advisorInv :: "int list \<Rightarrow> nat \<Rightarrow> cutover \<Rightarrow> bool" where
  "advisorInv rs n s =
     (timer s = int n \<and> tillLastMin s = prevReading rs n \<and> length (arr s) = 5 \<and>
      (\<forall>j<n. n \<le> j + 5 \<longrightarrow> arr s ! (j mod 5) = minuteDelta rs j) \<and>
      (\<forall>i<5. n \<le> i \<longrightarrow> arr s ! i = 0) \<and>
      lastFiveMin s = sum_list (map (minuteDelta rs) [n - 5..<n]) \<and>
      firstFiveMin s = sum_list (map (minuteDelta rs) [0..<min n 5]))"

definition ticks :: "int list \<Rightarrow> nat \<Rightarrow> nat \<Rightarrow> event list" where
  "ticks rs a b =
     concat (map (\<lambda>k. [EvSleep 60, EvReadUserExit False,
                         EvUpdateProgress (optimumSpec rs k) False (rs ! k)]) [a..<b])"

definition plausible :: "int list \<Rightarrow> bool" where
  "plausible rs = ((\<forall>r \<in> set rs. 0 \<le> r \<and> r < 2 ^ 56) \<and> int (length rs) < 2 ^ 63)"

subsection \<open>Example inputs\<close>

definition schemaAB :: Table where
  "schemaAB = \<lparr>ColNames = [''rangeKey'', ''payload'', ''hashKey''],
               PrimaryKeys = [\<lparr>Column = ''hashKey''\<rparr>, \<lparr>Column = ''rangeKey''\<rparr>]\<rparr>"

definition parentMissing :: string where
  "parentMissing = ''NotFound: Parent row is missing''"

definition twiceMissing :: writer where
  "twiceMissing m n = (if n < 2 then Some parentMissing else Some ''Aborted'')"

definition insertRow :: Mutation where
  "insertRow = Insert ''T'' [''a''] [Some (SpInt 1)]"

definition noSchema :: Conv where
  "noSchema = \<lparr>SrcSchema = (\<lambda>t. \<lparr>ColNames = [], PrimaryKeys = []\<rparr>),
               SpSchema = (\<lambda>t. None),
               GetSpannerTable = (\<lambda>t. ([], Some ''bad parameter: table not found'')),
               GetSpannerCols = (\<lambda>t cols. ([], Some ''bad parameter: table not found''))\<rparr>"

definition noRow :: converter where
  "noRow srcImage srcSchema spSchema spCols = ([], [], [])"

text \<open>A formatter for formats that hold no \<open>%\<close>: \<open>Errorf\<close> does not ask it.\<close>

definition noVerbs :: formatter where
  "noVerbs format = format"

text \<open>A conversion that knows table \<open>t\<close> as \<open>T\<close> with the one column \<open>a\<close>, a converter
  that yields the row of \<open>insertRow\<close>, and a write callback that accepts everything.\<close>

definition oneTable :: Conv where
  "oneTable = \<lparr>SrcSchema = (\<lambda>t. \<lparr>ColNames = [''a''], PrimaryKeys = [\<lparr>Column = ''a''\<rparr>]\<rparr>),
               SpSchema = (\<lambda>t. Some (CreateTable ''T'' [''a''])),
               GetSpannerTable = (\<lambda>t. (''T'', None)),
               GetSpannerCols = (\<lambda>t cols. ([''a''], None))\<rparr>"

definition oneRow :: converter where
  "oneRow srcImage srcSchema spSchema spCols = ([Some (SpInt 1)], [], [''1''])"

definition accepting :: writer where
  "accepting m n = None"

definition insertEvent :: Record where
  "insertEvent = \<lparr>EventName = ''INSERT'', SequenceNumber = Some ''100'', Keys = [(''a'', AttrS ''x'')],
                  NewImage = [(''a'', AttrS ''x'')]\<rparr>"

definition noStats :: StreamingInfo where
  "noStats = \<lparr>RecordsStats = (\<lambda>t k. 0), BadRecords = (\<lambda>t k. 0), DroppedRecords = (\<lambda>t k. 0),
              recordsProcessed = 0\<rparr>"

definition shardA :: Shard where
  "shardA = \<lparr>ShardId = ''shard-A'', ParentShardId = None\<rparr>"

definition shardB :: Shard where
  "shardB = \<lparr>ShardId = ''shard-B'', ParentShardId = Some ''shard-A''\<rparr>"

text \<open>A quiet world: no shards, no records, nobody asks to exit, no shard is processed.\<close>

definition quiet :: World where
  "quiet = \<lparr>DescribeStream = (\<lambda>t start arn. Inr \<lparr>Shards = [], LastEvaluatedShardId = None\<rparr>),
            GetShardIterator = (\<lambda>t input. Inr (Some ''iterator'')),
            GetRecords = (\<lambda>t shardIterator. Inr \<lparr>Records = [], NextShardIterator = None\<rparr>),
            UserExit = (\<lambda>t. False),
            ShardProcessed = (\<lambda>t shardId. None)\<rparr>"

text \<open>The user has asked to exit, and every \<open>DescribeStream\<close> lists shard A again.\<close>

definition repeating :: World where
  "repeating = quiet\<lparr>DescribeStream := (\<lambda>t start arn. Inr \<lparr>Shards = [shardA], LastEvaluatedShardId = None\<rparr>),
                     UserExit := (\<lambda>t. True)\<rparr>"

text \<open>The user has asked to exit; \<open>DescribeStream\<close> lists shards A and B, and nothing after B.\<close>

definition listedOnce :: World where
  "listedOnce = quiet\<lparr>DescribeStream := (\<lambda>t start arn.
                          if start = None then Inr \<lparr>Shards = [shardA, shardB], LastEvaluatedShardId = None\<rparr>
                          else Inr \<lparr>Shards = [], LastEvaluatedShardId = None\<rparr>),
                      UserExit := (\<lambda>t. True)\<rparr>"

definition trimmedIterator :: World where
  "trimmedIterator = quiet\<lparr>GetShardIterator :=
      (\<lambda>t input. Inl ''TrimmedDataAccessException: requested data is beyond the trim horizon'')\<rparr>"

text \<open>Shard A is processed from moment 4 on, its entry is false from moment 2 on and
  absent before; the shard read has one record and is closed.\<close>

definition parentLater :: World where
  "parentLater = quiet\<lparr>ShardProcessed := (\<lambda>t shardId.
                          if shardId = ''shard-A'' \<and> 4 \<le> t then Some True
                          else if shardId = ''shard-A'' \<and> 2 \<le> t then Some False
                          else None),
                       GetRecords := (\<lambda>t shardIterator.
                          Inr \<lparr>Records = [insertEvent], NextShardIterator = None\<rparr>)\<rparr>"


text \<open>Every \<open>GetRecords\<close> call fails with a trimmed-data error.\<close>

definition trimmedRecords :: World where
  "trimmedRecords = quiet\<lparr>GetRecords :=
      (\<lambda>t shardIterator. Inl ''TrimmedDataAccessException: requested data is beyond the trim horizon'')\<rparr>"

definition freshWorker :: worker where
  "freshWorker = \<lparr>events = [], passAfterUserExit = False, lastEvaluatedSequenceNumber = None,
                  retryCount = 0\<rparr>"





text \<open>A thousand records a minute for five minutes, then none.\<close>

definition decay :: "int list" where
  "decay = [1000, 2000, 3000, 4000, 5000, 5000, 5000, 5000, 5000, 5000]"

section \<open>Properties\<close>

subsection \<open>The key of a REMOVE mutation\<close>

lemma keepNonNil_zip:
  "keepNonNil cols vs i = Inr (ks, rs) \<Longrightarrow>
   ks = map fst (filter (\<lambda>cv. snd cv \<noteq> None) (zip (drop i cols) vs)) \<and>
   rs = map (\<lambda>cv. the (snd cv)) (filter (\<lambda>cv. snd cv \<noteq> None) (zip (drop i cols) vs))"
proof (induction cols vs i arbitrary: ks rs rule: keepNonNil.induct)
  case (1 colNames i)
  then show ?case by simp
next
  case (2 colNames vs i)
  then have "keepNonNil colNames vs (Suc i) = Inr (ks, rs)" by simp
  from 2(1)[OF this] show ?case
    by (cases "drop i colNames") (simp_all add: drop_Suc drop_tl)
next
  case (3 colNames v vs i)
  then show ?case
    by (auto split: if_splits sum.splits simp: Cons_nth_drop_Suc[symmetric])
qed

lemma keepNonNil_total:
  "i + length vs \<le> length cols \<Longrightarrow> \<exists>ks rs. keepNonNil cols vs i = Inr (ks, rs)"
proof (induction cols vs i rule: keepNonNil.induct)
  case (1 colNames i)
  then show ?case by simp
next
  case (2 colNames vs i)
  then show ?case by simp
next
  case (3 colNames v vs i)
  then show ?case by (auto split: sum.splits)
qed

lemma keepNonNil_nonNil:
  assumes "length spVals \<le> length (ColNames srcSchema)"
  shows "keepNonNil (ColNames srcSchema) spVals 0 =
           Inr (map fst (nonNil srcSchema spVals), map snd (nonNil srcSchema spVals))"
proof -
  from assms obtain ks rs where k: "keepNonNil (ColNames srcSchema) spVals 0 = Inr (ks, rs)"
    using keepNonNil_total[of 0 spVals "ColNames srcSchema"] by auto
  from keepNonNil_zip[OF k] show ?thesis
    by (simp add: k nonNil_def comp_def)
qed

lemma nonNil_distinct:
  "distinct (ColNames srcSchema) \<Longrightarrow> distinct (map fst (nonNil srcSchema spVals))"
proof -
  assume d: "distinct (ColNames srcSchema)"
  have "map fst (nonNil srcSchema spVals) =
        map fst (filter (\<lambda>cv. snd cv \<noteq> None) (zip (ColNames srcSchema) spVals))"
    by (simp add: nonNil_def comp_def)
  moreover have "distinct (map fst (zip (ColNames srcSchema) spVals))"
    using d by (simp add: map_fst_zip_take)
  ultimately show ?thesis by (simp add: distinct_map_filter)
qed

text \<open>
  Claim C2. In a REMOVE event the converted key image holds a value for the declared
  primary-key columns of the source table and for no other column; a DynamoDB
  primary key has one or two columns. For such a row \<open>removeMutation\<close> returns the
  \<open>Delete\<close> whose key lists the values in the declared primary-key order (the hash key,
  then the range key); the key is made of the non-nil entries in column order,
  the two of them swapped when the column of the first is not the first declared
  primary-key column.
\<close>

theorem removeMutation_key_order:
  assumes len: "length spVals \<le> length (ColNames srcSchema)"
      and dc: "distinct (ColNames srcSchema)"
      and dp: "distinct (map Column (PrimaryKeys srcSchema))"
      and keys: "set (map fst (nonNil srcSchema spVals)) = set (map Column (PrimaryKeys srcSchema))"
      and n: "length (PrimaryKeys srcSchema) = 1 \<or> length (PrimaryKeys srcSchema) = 2"
  shows "removeMutation srcSchema spTable srcTable spVals =
           Inr (Delete spTable
                  (map (\<lambda>pk. the (map_of (nonNil srcSchema spVals) (Column pk)))
                     (PrimaryKeys srcSchema)))
         \<and> removeMutation srcSchema spTable srcTable spVals =
           Inr (Delete spTable
                  (if Column (hd (PrimaryKeys srcSchema)) \<noteq> fst (hd (nonNil srcSchema spVals))
                   then rev (map snd (nonNil srcSchema spVals))
                   else map snd (nonNil srcSchema spVals)))"
proof -
  let ?nn = "nonNil srcSchema spVals"
  let ?pks = "PrimaryKeys srcSchema"
  have k: "keepNonNil (ColNames srcSchema) spVals 0 = Inr (map fst ?nn, map snd ?nn)"
    by (rule keepNonNil_nonNil[OF len])
  have dn: "distinct (map fst ?nn)" by (rule nonNil_distinct[OF dc])
  have "length (map fst ?nn) = length (map Column ?pks)"
    using dn dp keys by (metis distinct_card)
  then have ln: "length ?nn = length ?pks" by simp
  from n show ?thesis
  proof
    assume "length ?pks = 1"
    then obtain p where p: "?pks = [p]" by (cases ?pks) auto
    with ln obtain c v where nn: "?nn = [(c, v)]" by (cases ?nn) auto
    from keys p nn have "c = Column p" by simp
    then show ?thesis using k p nn by (simp add: removeMutation_def)
  next
    assume "length ?pks = 2"
    then obtain p q where p: "?pks = [p, q]"
      by (cases ?pks; cases "tl ?pks") auto
    with ln obtain c v d x where nn: "?nn = [(c, v), (d, x)]"
      by (cases ?nn; cases "tl ?nn") auto
    from dn nn have cd: "c \<noteq> d" by simp
    from dp p have pq: "Column p \<noteq> Column q" by simp
    from keys p nn have s: "{c, d} = {Column p, Column q}" by simp
    show ?thesis
    proof (cases "Column p = c")
      case True
      with s cd pq have "Column q = d" by (metis doubleton_eq_iff)
      with True show ?thesis using k p nn cd by (simp add: removeMutation_def)
    next
      case False
      with s cd pq have "Column p = d" "Column q = c" by (metis doubleton_eq_iff)+
      with False show ?thesis using k p nn cd by (simp add: removeMutation_def)
    qed
  qed
qed

theorem removeMutation_key_order_witness:
  "removeMutation schemaAB ''T'' ''t'' [Some (SpInt 7), None, Some (SpString ''h'')] =
     Inr (Delete ''T'' [SpString ''h'', SpInt 7])"
  using removeMutation_key_order[of "[Some (SpInt 7), None, Some (SpString ''h'')]" schemaAB "''T''" "''t''"]
  by (simp add: schemaAB_def nonNil_def insert_commute)

text \<open>
  Claim C9. \<open>removeMutation\<close> reads positions 0 and 1 without a test of the length.
  With exactly one non-nil entry whose column is not the first declared primary-key
  column, the swap reads \<open>reqSpVals[1]\<close> and panics; with no non-nil entry,
  \<open>srcKeys[0]\<close> (or \<open>primaryKeys[0]\<close>) panics. A \<open>Delete\<close> with a single-element key is
  returned only when the one non-nil entry is in the first declared primary-key
  column.
\<close>

theorem removeMutation_panics:
  "(length spVals \<le> length (ColNames srcSchema) \<and> nonNil srcSchema spVals = [(k, v)] \<and>
    PrimaryKeys srcSchema \<noteq> [] \<and> Column (hd (PrimaryKeys srcSchema)) \<noteq> k
      \<longrightarrow> removeMutation srcSchema spTable srcTable spVals = Inl (IndexOutOfRange 1 1))
   \<and> removeMutation srcSchema spTable srcTable (replicate n None) = Inl (IndexOutOfRange 0 0)
   \<and> (removeMutation srcSchema spTable srcTable spVals = Inr (Delete t [a])
      \<longrightarrow> PrimaryKeys srcSchema \<noteq> [] \<and>
          nonNil srcSchema spVals = [(Column (hd (PrimaryKeys srcSchema)), a)])"
proof (intro conjI impI)
  assume a: "length spVals \<le> length (ColNames srcSchema) \<and> nonNil srcSchema spVals = [(k, v)] \<and>
    PrimaryKeys srcSchema \<noteq> [] \<and> Column (hd (PrimaryKeys srcSchema)) \<noteq> k"
  then obtain pk pks where p: "PrimaryKeys srcSchema = pk # pks" by (cases "PrimaryKeys srcSchema") auto
  from a have "keepNonNil (ColNames srcSchema) spVals 0 = Inr ([k], [v])"
    using keepNonNil_nonNil[of spVals srcSchema] by simp
  with a p show "removeMutation srcSchema spTable srcTable spVals = Inl (IndexOutOfRange 1 1)"
    by (simp add: removeMutation_def)
next
  have "keepNonNil cols (replicate n None) i = Inr ([], [])" for cols i
    by (induction n arbitrary: i) simp_all
  then show "removeMutation srcSchema spTable srcTable (replicate n None) = Inl (IndexOutOfRange 0 0)"
    by (simp add: removeMutation_def split: list.splits)
next
  assume r: "removeMutation srcSchema spTable srcTable spVals = Inr (Delete t [a])"
  then obtain ks rs where k: "keepNonNil (ColNames srcSchema) spVals 0 = Inr (ks, rs)"
    by (auto simp: removeMutation_def split: sum.splits)
  from keepNonNil_zip[OF k] have z: "ks = map fst (nonNil srcSchema spVals)" "rs = map snd (nonNil srcSchema spVals)"
    by (simp_all add: nonNil_def comp_def)
  from r k show "PrimaryKeys srcSchema \<noteq> []"
    by (auto simp: removeMutation_def split: list.splits)
  from z have l: "length ks = length rs" by simp
  from r k l have "ks = [Column (hd (PrimaryKeys srcSchema))] \<and> rs = [a]"
    by (auto simp: removeMutation_def split: list.splits if_splits sum.splits elim!: swapFirstTwo.elims)
  with z show "nonNil srcSchema spVals = [(Column (hd (PrimaryKeys srcSchema)), a)]"
    by (cases "nonNil srcSchema spVals") auto
qed

theorem removeMutation_panics_witness:
  "removeMutation schemaAB ''T'' ''t'' [Some (SpInt 7), None, None] = Inl (IndexOutOfRange 1 1)
   \<and> nonNil schemaAB [None, None, Some (SpString ''h'')] = [(''hashKey'', SpString ''h'')]"
proof -
  have "removeMutation schemaAB ''T'' ''t'' [None, None, Some (SpString ''h'')] =
          Inr (Delete ''T'' [SpString ''h''])"
    by (simp add: removeMutation_def schemaAB_def)
  then show ?thesis
    using removeMutation_panics[of "[Some (SpInt 7), None, None]" schemaAB "''rangeKey''" "SpInt 7"
        "''T''" "''t''" 0 "''T''" "SpString ''h''"]
      removeMutation_panics[of "[None, None, Some (SpString ''h'')]" schemaAB "''rangeKey''" "SpInt 7"
        "''T''" "''t''" 0 "''T''" "SpString ''h''"]
    by (simp add: schemaAB_def nonNil_def)
qed

subsection \<open>Writing with retries\<close>

lemma writeMutation_loop_shape:
  "\<exists>k\<le>limit. (\<forall>i<k. retryable (write m (n + i))) \<and> (k < limit \<longrightarrow> \<not> retryable (write m (n + k))) \<and>
     writeMutation_loop write m limit n err =
       (if limit = 0 then err else write m (n + (if k = limit then k - 1 else k)),
        concat (map (\<lambda>i. [EvWrite m (write m (n + i)), EvSleep 4]) [0..<k])
        @ (if k < limit then [EvWrite m (write m (n + k))] else []))"
proof (induction limit arbitrary: n err)
  case 0
  show ?case by simp
next
  case (Suc limit)
  show ?case
  proof (cases "retryable (write m n)")
    case False
    then have "writeMutation_loop write m (Suc limit) n err = (write m n, [EvWrite m (write m n)])"
      by (auto simp: retryable_def split: option.splits)
    with False show ?thesis by (intro exI[of _ 0]) simp
  next
    case True
    then obtain e where e: "write m n = Some e" "parentDataMissingError e"
      by (auto simp: retryable_def split: option.splits)
    from Suc.IH[of "Suc n" "Some e"] obtain k where k: "k \<le> limit"
      "\<forall>i<k. retryable (write m (Suc n + i))"
      "k < limit \<longrightarrow> \<not> retryable (write m (Suc n + k))"
      "writeMutation_loop write m limit (Suc n) (Some e) =
         (if limit = 0 then Some e else write m (Suc n + (if k = limit then k - 1 else k)),
          concat (map (\<lambda>i. [EvWrite m (write m (Suc n + i)), EvSleep 4]) [0..<k])
          @ (if k < limit then [EvWrite m (write m (Suc n + k))] else []))"
      by blast
    have r: "\<forall>i<Suc k. retryable (write m (n + i))"
    proof (intro allI impI)
      fix i assume "i < Suc k"
      then show "retryable (write m (n + i))"
        using True k(2) by (cases i) auto
    qed
    have m: "map (\<lambda>i. [EvWrite m (write m (n + i)), EvSleep 4]) [0..<Suc k] =
             [EvWrite m (write m n), EvSleep 4] # map (\<lambda>i. [EvWrite m (write m (Suc n + i)), EvSleep 4]) [0..<k]"
      by (simp add: upt_conv_Cons map_Suc_upt[symmetric] del: upt_Suc)
    have "writeMutation_loop write m (Suc limit) n err =
       (write m (n + (if Suc k = Suc limit then Suc k - 1 else Suc k)),
        concat (map (\<lambda>i. [EvWrite m (write m (n + i)), EvSleep 4]) [0..<Suc k])
        @ (if Suc k < Suc limit then [EvWrite m (write m (n + Suc k))] else []))"
      using e k(1,4) unfolding m by (cases "limit = 0") (auto simp: Suc_diff_Suc)
    with k(1,3) r show ?thesis
      by (intro exI[of _ "Suc k"]) simp
  qed
qed

text \<open>
  Claim C3. \<open>writeMutation\<close> calls the write callback again only after an error whose
  text contains \<open>NotFound\<close>, \<open>Parent row\<close> and \<open>is missing\<close>, sleeping 4 seconds after
  each such error, and makes at most 1000 calls; any other answer is returned at once
  (\<open>k\<close> below is the number of calls answered by such an error).
  When \<open>writeMutation\<close> returns an error, \<open>writeRecord\<close> counts the record as dropped
  and collects the table, the columns, the values and the error.
\<close>

theorem writeMutation_retries:
  "(\<exists>k\<le>1000. (\<forall>i<k. retryable (write m i)) \<and> (k < 1000 \<longrightarrow> \<not> retryable (write m k)) \<and>
      writeMutation write m =
        (write m (if k = 1000 then 999 else k),
         attempts write m k @ (if k < 1000 then [EvWrite m (write m k)] else [])))
   \<and> (\<not> retryable (write m 0) \<longrightarrow> writeMutation write m = (write m 0, [EvWrite m (write m 0)]))
   \<and> (getMutation eventName srcTable spTable spCols spVals srcSchema = Inr m \<and>
       writeMutation write m = (Some err, evs) \<longrightarrow>
         writeRecord (Some write) srcTable spTable eventName spCols spVals srcSchema =
           Inr (evs @ [EvStatsAddDroppedRecord srcTable eventName,
                       EvCollectDroppedRecord eventName spTable spCols spVals err]))"
proof (intro conjI impI)
  from writeMutation_loop_shape[of 1000 "write" m 0 None]
  show "\<exists>k\<le>1000. (\<forall>i<k. retryable (write m i)) \<and> (k < 1000 \<longrightarrow> \<not> retryable (write m k)) \<and>
      writeMutation write m =
        (write m (if k = 1000 then 999 else k),
         attempts write m k @ (if k < 1000 then [EvWrite m (write m k)] else []))"
    unfolding writeMutation_def attempts_def
    by (elim exE conjE, rule_tac x = k in exI) (auto split: if_splits)
next
  assume a: "\<not> retryable (write m 0)"
  have "writeMutation_loop write m (Suc l) 0 None = (write m 0, [EvWrite m (write m 0)])" for l
    using a by (simp add: retryable_def split: option.splits)
  from this[of 999] show "writeMutation write m = (write m 0, [EvWrite m (write m 0)])"
    by (simp add: writeMutation_def)
next
  assume "getMutation eventName srcTable spTable spCols spVals srcSchema = Inr m \<and>
       writeMutation write m = (Some err, evs)"
  then show "writeRecord (Some write) srcTable spTable eventName spCols spVals srcSchema =
           Inr (evs @ [EvStatsAddDroppedRecord srcTable eventName,
                       EvCollectDroppedRecord eventName spTable spCols spVals err])"
    by (simp add: writeRecord_def)
qed

lemma parentMissing_retryable: "parentDataMissingError parentMissing"
  by (simp add: parentDataMissingError_def parentMissing_def)

lemma Aborted_not_retryable: "\<not> parentDataMissingError ''Aborted''"
  by (simp add: parentDataMissingError_def)

theorem writeMutation_retries_witness:
  "writeRecord (Some twiceMissing) ''t'' ''T'' ''INSERT'' [''a''] [Some (SpInt 1)]
     \<lparr>ColNames = [''a''], PrimaryKeys = [\<lparr>Column = ''a''\<rparr>]\<rparr> =
   Inr [EvWrite insertRow (Some parentMissing), EvSleep 4,
        EvWrite insertRow (Some parentMissing), EvSleep 4,
        EvWrite insertRow (Some ''Aborted''),
        EvStatsAddDroppedRecord ''t'' ''INSERT'',
        EvCollectDroppedRecord ''INSERT'' ''T'' [''a''] [Some (SpInt 1)] ''Aborted'']"
proof -
  let ?s = "\<lparr>ColNames = [''a''], PrimaryKeys = [\<lparr>Column = ''a''\<rparr>]\<rparr>"
  note t = writeMutation_retries[of twiceMissing insertRow "''INSERT''" "''t''" "''T''" "[''a'']"
      "[Some (SpInt 1)]" ?s "''Aborted''"]
  from t obtain k where k: "k \<le> 1000" "\<forall>i<k. retryable (twiceMissing insertRow i)"
    "k < 1000 \<longrightarrow> \<not> retryable (twiceMissing insertRow k)"
    "writeMutation twiceMissing insertRow =
        (twiceMissing insertRow (if k = 1000 then 999 else k),
         attempts twiceMissing insertRow k @ (if k < 1000 then [EvWrite insertRow (twiceMissing insertRow k)] else []))"
    by blast
  have r: "retryable (twiceMissing insertRow i) = (i < 2)" for i
    by (simp add: retryable_def twiceMissing_def parentMissing_retryable Aborted_not_retryable)
  from k(2) r have "k \<le> 2" by (meson not_less order_refl)
  moreover from k(3) r this have "2 \<le> k" by simp
  ultimately have "k = 2" by simp
  with k(4) have "writeMutation twiceMissing insertRow =
      (Some ''Aborted'',
       [EvWrite insertRow (Some parentMissing), EvSleep 4,
        EvWrite insertRow (Some parentMissing), EvSleep 4,
        EvWrite insertRow (Some ''Aborted'')])"
    by (simp add: attempts_def twiceMissing_def upt_conv_Cons)
  moreover have "getMutation ''INSERT'' ''t'' ''T'' [''a''] [Some (SpInt 1)] ?s = Inr insertRow"
    by (simp add: getMutation_def insertRow_def)
  ultimately show ?thesis using t by simp
qed

subsection \<open>Counting a processed record\<close>

lemma recordsProcessed_performAll:
  "recordsProcessed (performAll evs info) = recordsProcessed info + int (processedCalls evs)"
proof (induction evs arbitrary: info)
  case Nil
  show ?case by (simp add: processedCalls_def)
next
  case (Cons ev evs)
  have "recordsProcessed (perform ev info) =
          recordsProcessed info + (if ev = EvStatsAddRecordProcessed then 1 else 0)"
    by (cases ev) simp_all
  with Cons[of "perform ev info"] show ?case by (simp add: processedCalls_def)
qed

lemma writeMutation_loop_no_processed:
  "writeMutation_loop write m limit n err = (err', evs) \<Longrightarrow> processedCalls evs = 0"
proof (induction limit arbitrary: n err err' evs)
  case 0
  then show ?case by (simp add: processedCalls_def)
next
  case (Suc limit)
  show ?case
  proof (cases "retryable (write m n)")
    case False
    with Suc.prems show ?thesis
      by (auto simp: retryable_def processedCalls_def split: option.splits)
  next
    case True
    then obtain e where e: "write m n = Some e" "parentDataMissingError e"
      by (auto simp: retryable_def split: option.splits)
    obtain err1 evs1 where r: "writeMutation_loop write m limit (Suc n) (Some e) = (err1, evs1)"
      by (cases "writeMutation_loop write m limit (Suc n) (Some e)")
    from Suc.IH[OF r] Suc.prems e r show ?thesis
      by (auto simp: processedCalls_def)
  qed
qed

lemma writeRecord_no_processed:
  assumes "writeRecord write srcTable spTable eventName spCols spVals srcSchema = Inr evs"
  shows "processedCalls evs = 0"
proof (cases "write")
  case None
  with assms show ?thesis by (auto simp: writeRecord_def processedCalls_def)
next
  case (Some w)
  with assms obtain m where m: "getMutation eventName srcTable spTable spCols spVals srcSchema = Inr m"
    by (auto simp: writeRecord_def split: sum.splits)
  obtain err1 evs1 where r: "writeMutation w m = (err1, evs1)"
    by (cases "writeMutation w m")
  then have "processedCalls evs1 = 0"
    unfolding writeMutation_def by (rule writeMutation_loop_no_processed)
  with assms Some m r show ?thesis
    by (cases err1) (auto simp: writeRecord_def processedCalls_def)
qed

lemma writeMutation_loop_outcome:
  "writeMutation_loop write m limit n err = (err', evs) \<Longrightarrow> (limit = 0 \<longrightarrow> err \<noteq> None) \<Longrightarrow>
   calls isApplied evs = (if err' = None then 1 else 0) \<and>
   calls isBadRecord evs = 0 \<and> calls isDroppedRecord evs = 0"
proof (induction limit arbitrary: n err err' evs)
  case 0
  then show ?case by (auto simp: calls_def)
next
  case (Suc limit)
  show ?case
  proof (cases "retryable (write m n)")
    case False
    with Suc.prems show ?thesis
      by (auto simp: retryable_def calls_def split: option.splits)
  next
    case True
    then obtain e where e: "write m n = Some e" "parentDataMissingError e"
      by (auto simp: retryable_def split: option.splits)
    obtain err1 evs1 where r: "writeMutation_loop write m limit (Suc n) (Some e) = (err1, evs1)"
      by (cases "writeMutation_loop write m limit (Suc n) (Some e)")
    from Suc.IH[OF r] Suc.prems e r show ?thesis
      by (auto simp: calls_def)
  qed
qed

lemma writeRecord_outcome:
  assumes "writeRecord write srcTable spTable eventName spCols spVals srcSchema = Inr evs"
  shows "calls isApplied evs + calls isBadRecord evs + calls isDroppedRecord evs = 1"
proof (cases "write")
  case None
  with assms show ?thesis by (auto simp: writeRecord_def calls_def)
next
  case (Some w)
  with assms obtain m where m: "getMutation eventName srcTable spTable spCols spVals srcSchema = Inr m"
    by (auto simp: writeRecord_def split: sum.splits)
  obtain err1 evs1 where r: "writeMutation w m = (err1, evs1)"
    by (cases "writeMutation w m")
  then have "writeMutation_loop w m 1000 0 None = (err1, evs1)" by (simp add: writeMutation_def)
  from writeMutation_loop_outcome[OF this]
  have o: "calls isApplied evs1 = (if err1 = None then 1 else 0)"
    "calls isBadRecord evs1 = 0" "calls isDroppedRecord evs1 = 0" by simp_all
  show ?thesis
  proof (cases err1)
    case None
    with assms Some m r have "evs = evs1" by (simp add: writeRecord_def)
    with o None show ?thesis by simp
  next
    case (Some e)
    with assms \<open>write = Some w\<close> m r
    have "evs = evs1 @ [EvStatsAddDroppedRecord srcTable eventName,
                        EvCollectDroppedRecord eventName spTable spCols spVals e]"
      by (simp add: writeRecord_def)
    with o Some show ?thesis by (simp add: calls_def)
  qed
qed

lemma ProcessRecord_resolved:
  assumes s: "schemaError conv verbs srcTable = None"
      and p: "ProcessRecord conv verbs cvtRow write record srcTable = Inr evs"
  shows "processedCalls evs = 1 \<and>
         calls isApplied evs + calls isBadRecord evs + calls isDroppedRecord evs = 1"
proof -
  obtain srcSchema spTable spCols spSchema where
    g: "getColsAndSchemas conv verbs srcTable = (srcSchema, spTable, spCols, spSchema, None)"
    using s by (auto simp: schemaError_def split: prod.splits)
  let ?image = "if EventName record = ''REMOVE'' then Keys record else NewImage record"
  obtain spVals badCols srcStrVals where
    c: "cvtRow ?image srcSchema spSchema spCols = (spVals, badCols, srcStrVals)"
    by (cases "cvtRow ?image srcSchema spSchema spCols") auto
  show ?thesis
  proof (cases "badCols = []")
    case False
    with p g c have "evs = [EvStatsAddRecord srcTable (EventName record),
                            EvStatsAddBadRecord srcTable (EventName record),
                            EvCollectBadRecord (EventName record) srcTable (ColNames srcSchema) srcStrVals,
                            EvStatsAddRecordProcessed]"
      by (simp add: ProcessRecord_def Let_def)
    then show ?thesis by (simp add: processedCalls_def calls_def)
  next
    case True
    with p g c obtain evs1 where
      w: "writeRecord write srcTable spTable (EventName record) spCols spVals srcSchema = Inr evs1"
      and e: "evs = EvStatsAddRecord srcTable (EventName record) # evs1 @ [EvStatsAddRecordProcessed]"
      by (auto simp: ProcessRecord_def Let_def split: sum.splits)
    from writeRecord_no_processed[OF w] writeRecord_outcome[OF w] e
    show ?thesis by (simp add: processedCalls_def calls_def)
  qed
qed

lemma ProcessRecord_unresolved:
  assumes "schemaError conv verbs srcTable = Some e"
  shows "ProcessRecord conv verbs cvtRow write record srcTable =
           Inr [EvStatsAddRecord srcTable (EventName record),
                EvUnexpected (''Can't get cols and schemas for table '' @ srcTable @ '': '' @ e)]"
  using assms by (auto simp: ProcessRecord_def schemaError_def Let_def split: prod.splits)

lemma accepting_run: "writeMutation_loop accepting m (Suc l) n err = (None, [EvWrite m None])"
  by (simp add: accepting_def)

lemma accepting_writes: "writeMutation accepting m = (None, [EvWrite m None])"
proof -
  have "(1000::nat) = Suc 999" by simp
  then show ?thesis unfolding writeMutation_def by (simp only: accepting_run)
qed

lemma oneTable_resolves: "schemaError oneTable noVerbs ''t'' = None"
  by (simp add: schemaError_def getColsAndSchemas_def oneTable_def)

lemma oneTable_run:
  "ProcessRecord oneTable noVerbs oneRow (Some accepting) insertEvent ''t'' =
     Inr [EvStatsAddRecord ''t'' ''INSERT'', EvWrite insertRow None, EvStatsAddRecordProcessed]"
  by (simp add: ProcessRecord_def getColsAndSchemas_def oneTable_def oneRow_def insertEvent_def
        writeRecord_def getMutation_def accepting_writes insertRow_def)

lemma noSchema_fails:
  "schemaError noSchema noVerbs ''t'' =
     Some ''err1=bad parameter: table not found, err2=bad parameter: table not found, ok=false''"
  by (simp add: schemaError_def getColsAndSchemas_def noSchema_def showError_def showBool_def
        Errorf_def)

text \<open>
  Claim C5, as the code has it. A call of \<open>ProcessRecord\<close> that returns calls
  \<open>StatsAddRecordProcessed\<close> once when \<open>getColsAndSchemas\<close> returns no error, also
  when the conversion yields bad columns, when no writer is configured and when the
  write fails; and then exactly one of these has happened: the mutation was applied,
  the record was counted as bad, the record was counted as dropped. When
  \<open>getColsAndSchemas\<close> returns an error, \<open>ProcessRecord\<close> counts the record in
  \<open>Records\<close>, records the anomaly and returns: \<open>RecordsProcessed\<close>, \<open>BadRecords\<close> and
  \<open>DroppedRecords\<close> are unchanged.
\<close>

theorem ProcessRecord_counts_resolved_records:
  "(schemaError conv verbs srcTable = None \<and>
    ProcessRecord conv verbs cvtRow write record srcTable = Inr evs \<longrightarrow>
      processedCalls evs = 1 \<and>
      recordsProcessed (performAll evs info) = recordsProcessed info + 1 \<and>
      calls isApplied evs + calls isBadRecord evs + calls isDroppedRecord evs = 1)
   \<and> (schemaError conv verbs srcTable = Some e \<longrightarrow>
        ProcessRecord conv verbs cvtRow write record srcTable =
          Inr [EvStatsAddRecord srcTable (EventName record),
               EvUnexpected (''Can't get cols and schemas for table '' @ srcTable @ '': '' @ e)] \<and>
        recordsProcessed
          (performAll [EvStatsAddRecord srcTable (EventName record),
                       EvUnexpected (''Can't get cols and schemas for table '' @ srcTable @ '': '' @ e)]
             info) = recordsProcessed info \<and>
        BadRecords
          (performAll [EvStatsAddRecord srcTable (EventName record),
                       EvUnexpected (''Can't get cols and schemas for table '' @ srcTable @ '': '' @ e)]
             info) = BadRecords info \<and>
        DroppedRecords
          (performAll [EvStatsAddRecord srcTable (EventName record),
                       EvUnexpected (''Can't get cols and schemas for table '' @ srcTable @ '': '' @ e)]
             info) = DroppedRecords info \<and>
        RecordsStats
          (performAll [EvStatsAddRecord srcTable (EventName record),
                       EvUnexpected (''Can't get cols and schemas for table '' @ srcTable @ '': '' @ e)]
             info) srcTable (EventName record) = RecordsStats info srcTable (EventName record) + 1)"
proof -
  have r: "processedCalls evs = 1 \<and>
      recordsProcessed (performAll evs info) = recordsProcessed info + 1 \<and>
      calls isApplied evs + calls isBadRecord evs + calls isDroppedRecord evs = 1"
    if s: "schemaError conv verbs srcTable = None"
    and p: "ProcessRecord conv verbs cvtRow write record srcTable = Inr evs"
  proof -
    from ProcessRecord_resolved[OF s p]
    have c: "processedCalls evs = 1"
      and o: "calls isApplied evs + calls isBadRecord evs + calls isDroppedRecord evs = 1"
      by simp_all
    from c have "recordsProcessed (performAll evs info) = recordsProcessed info + 1"
      by (simp add: recordsProcessed_performAll)
    with c o show ?thesis by simp
  qed
  have u: "ProcessRecord conv verbs cvtRow write record srcTable =
          Inr [EvStatsAddRecord srcTable (EventName record),
               EvUnexpected (''Can't get cols and schemas for table '' @ srcTable @ '': '' @ e)]"
    if "schemaError conv verbs srcTable = Some e"
    using that by (rule ProcessRecord_unresolved)
  from r u show ?thesis by (simp add: bump_def)
qed

theorem ProcessRecord_counts_resolved_records_witness:
  "schemaError oneTable noVerbs ''t'' = None
   \<and> ProcessRecord oneTable noVerbs oneRow (Some accepting) insertEvent ''t'' =
       Inr [EvStatsAddRecord ''t'' ''INSERT'', EvWrite insertRow None, EvStatsAddRecordProcessed]
   \<and> processedCalls [EvStatsAddRecord ''t'' ''INSERT'', EvWrite insertRow None,
                      EvStatsAddRecordProcessed] = 1
   \<and> recordsProcessed (performAll [EvStatsAddRecord ''t'' ''INSERT'', EvWrite insertRow None,
                                    EvStatsAddRecordProcessed] noStats) = 1
   \<and> calls isApplied [EvStatsAddRecord ''t'' ''INSERT'', EvWrite insertRow None,
                       EvStatsAddRecordProcessed] = 1
   \<and> schemaError noSchema noVerbs ''t'' =
       Some ''err1=bad parameter: table not found, err2=bad parameter: table not found, ok=false''
   \<and> ProcessRecord noSchema noVerbs noRow (Some accepting) insertEvent ''t'' =
       Inr [EvStatsAddRecord ''t'' ''INSERT'',
            EvUnexpected (''Can't get cols and schemas for table t: err1=bad parameter: table not found, ''
                          @ ''err2=bad parameter: table not found, ok=false'')]"
proof -
  let ?evs = "[EvStatsAddRecord ''t'' ''INSERT'', EvWrite insertRow None, EvStatsAddRecordProcessed]"
  let ?e = "''err1=bad parameter: table not found, err2=bad parameter: table not found, ok=false''"
  from ProcessRecord_counts_resolved_records[of oneTable noVerbs "''t''" oneRow "Some accepting"
      insertEvent ?evs noStats ?e] oneTable_resolves oneTable_run
  have a: "processedCalls ?evs = 1" "recordsProcessed (performAll ?evs noStats) = 1"
    "calls isApplied ?evs + calls isBadRecord ?evs + calls isDroppedRecord ?evs = 1"
    by (simp_all add: noStats_def)
  from a(3) have b: "calls isApplied ?evs = 1" by (simp add: calls_def)
  from ProcessRecord_counts_resolved_records[of noSchema noVerbs "''t''" noRow "Some accepting"
      insertEvent ?evs noStats ?e] noSchema_fails
  have c: "ProcessRecord noSchema noVerbs noRow (Some accepting) insertEvent ''t'' =
       Inr [EvStatsAddRecord ''t'' ''INSERT'',
            EvUnexpected (''Can't get cols and schemas for table t: err1=bad parameter: table not found, ''
                          @ ''err2=bad parameter: table not found, ok=false'')]"
    by (simp add: insertEvent_def)
  from a b c oneTable_resolves oneTable_run noSchema_fails show ?thesis by simp
qed

text \<open>
  Claim C5 as stated fails: for an INSERT record of a table that the conversion does
  not know, the record is counted in \<open>Records\<close> and \<open>RecordsProcessed\<close> stays at 0.
\<close>

theorem ProcessRecord_schema_failure_not_counted:
  "ProcessRecord noSchema noVerbs noRow (Some twiceMissing) insertEvent ''t'' =
     Inr [EvStatsAddRecord ''t'' ''INSERT'',
          EvUnexpected (''Can't get cols and schemas for table t: err1=bad parameter: table not found, ''
                        @ ''err2=bad parameter: table not found, ok=false'')]
   \<and> recordsProcessed (performAll [EvStatsAddRecord ''t'' ''INSERT'',
          EvUnexpected (''Can't get cols and schemas for table t: err1=bad parameter: table not found, ''
                        @ ''err2=bad parameter: table not found, ok=false'')] noStats) = 0
   \<and> RecordsStats (performAll [EvStatsAddRecord ''t'' ''INSERT'',
          EvUnexpected (''Can't get cols and schemas for table t: err1=bad parameter: table not found, ''
                        @ ''err2=bad parameter: table not found, ok=false'')] noStats) ''t'' ''INSERT'' = 1"
  by (simp add: ProcessRecord_def getColsAndSchemas_def noSchema_def insertEvent_def noStats_def
        showError_def showBool_def bump_def Errorf_def)

subsection \<open>The shards handed to workers\<close>

lemma dispatch_events: "events (dispatch shards st) = events st @ map EvGoProcessShard shards"
  by (induction shards arbitrary: st) (simp_all add: emit_def)


lemma dispatch_last:
  "lastProcessedShardId (dispatch shards st) =
     (if shards = [] then lastProcessedShardId st else Some (ShardId (last shards)))"
  by (induction shards arbitrary: st) (simp_all add: emit_def)

lemma dispatched_append: "dispatched (xs @ ys) = dispatched xs @ dispatched ys"
  by (simp add: dispatched_def)

lemma dispatched_spawn: "dispatched (map EvGoProcessShard shards) = shards"
  by (induction shards) (simp_all add: dispatched_def)

lemma listed_snoc:
  "listed w arn (evs @ [ev]) = listed w arn evs @ listedAt w arn (evs @ [ev]) (length evs)"
proof -
  have m: "map (listedAt w arn (evs @ [ev])) [0..<length evs] = map (listedAt w arn evs) [0..<length evs]"
    by (rule map_cong) (simp_all add: listedAt_def nth_append)
  show ?thesis unfolding listed_def by (simp add: m)
qed

lemma listed_other:
  "\<not> isDescribe ev \<Longrightarrow> listed w arn (evs @ [ev]) = listed w arn evs"
  by (cases ev) (simp_all add: listed_snoc listedAt_def)

lemma listed_others:
  "\<forall>ev \<in> set new. \<not> isDescribe ev \<Longrightarrow> listed w arn (evs @ new) = listed w arn evs"
proof (induction new rule: rev_induct)
  case Nil
  show ?case by simp
next
  case (snoc ev new)
  have "listed w arn ((evs @ new) @ [ev]) = listed w arn (evs @ new)"
    by (rule listed_other) (use snoc.prems in auto)
  with snoc show ?case by simp
qed

lemma listed_call:
  "listed w arn (evs @ [EvDescribeStream start]) =
     listed w arn evs @ (case DescribeStream w (length evs) start arn of
                           Inl err \<Rightarrow> [] | Inr result \<Rightarrow> Shards result)"
  by (simp add: listed_snoc listedAt_def)

lemma ProcessStream_iteration_listed:
  assumes "ProcessStream_iteration w arn tbl st = Break st' \<or>
           ProcessStream_iteration w arn tbl st = Continue st'"
      and "dispatched (events st) = listed w arn (events st)"
  shows "dispatched (events st') = listed w arn (events st')"
proof (cases "DescribeStream w (now st) (lastProcessedShardId st) arn")
  case (Inl err)
  with assms(1) obtain msg where
    e: "events st' = (events st @ [EvDescribeStream (lastProcessedShardId st)]) @ [EvUnexpected msg]"
    by (auto simp: ProcessStream_iteration_def fetchShards_def emit_def Let_def)
  have "listed w arn (events st') = listed w arn (events st @ [EvDescribeStream (lastProcessedShardId st)])"
    unfolding e by (rule listed_other) simp
  also have "\<dots> = listed w arn (events st)"
    using Inl by (simp add: listed_call now_def)
  finally show ?thesis
    using assms(2) by (simp add: e dispatched_append) (simp add: dispatched_def)
next
  case (Inr result)
  let ?call = "events st @ [EvDescribeStream (lastProcessedShardId st)]"
  let ?base = "?call @ map EvGoProcessShard (Shards result)"
  from Inr assms(1) obtain rest where e: "events st' = ?base @ rest"
    and r: "\<forall>ev \<in> set rest. \<not> isDescribe ev"
    and d: "dispatched rest = []"
    by (auto simp: ProcessStream_iteration_def fetchShards_def emit_def Let_def dispatch_events
          dispatched_def split: if_splits)
  have "listed w arn (events st') = listed w arn ?base"
    unfolding e by (rule listed_others) (rule r)
  also have "\<dots> = listed w arn ?call"
    by (rule listed_others) auto
  also have "\<dots> = listed w arn (events st) @ Shards result"
    using Inr by (simp add: listed_call now_def)
  finally have l: "listed w arn (events st') = listed w arn (events st) @ Shards result" .
  have c: "dispatched (EvDescribeStream (lastProcessedShardId st) # evs) = dispatched evs" for evs
    by (simp add: dispatched_def)
  have "dispatched (events st') = dispatched (events st) @ Shards result"
    by (simp add: e dispatched_append dispatched_spawn d c)
  with l assms(2) show ?thesis by simp
qed

lemma ProcessStream_loop_listed:
  "dispatched (events st) = listed w arn (events st) \<Longrightarrow>
   dispatched (events (state (ProcessStream_loop fuel w arn tbl st))) =
     listed w arn (events (state (ProcessStream_loop fuel w arn tbl st)))"
proof (induction fuel arbitrary: st)
  case 0
  then show ?case by (simp add: state_def)
next
  case (Suc fuel)
  show ?case
  proof (cases "ProcessStream_iteration w arn tbl st")
    case (Break st')
    with ProcessStream_iteration_listed[of w arn tbl st st'] Suc.prems
    show ?thesis by (simp add: state_def)
  next
    case (Continue st')
    with ProcessStream_iteration_listed[of w arn tbl st st'] Suc.prems
    have "dispatched (events st') = listed w arn (events st')" by simp
    from Suc.IH[OF this] Continue show ?thesis by simp
  qed
qed

lemma startsAfterLast_append:
  assumes "startsAfterLast evs" and "\<forall>ev \<in> set new. \<not> isDescribe ev"
  shows "startsAfterLast (evs @ new)"
  unfolding startsAfterLast_def
proof (intro allI impI)
  fix i start
  assume i: "i < length (evs @ new)" and d: "(evs @ new) ! i = EvDescribeStream start"
  show "start = lastDispatched (take i (evs @ new))"
  proof (cases "i < length evs")
    case True
    with d assms(1) show ?thesis by (simp add: startsAfterLast_def nth_append)
  next
    case False
    with i have "(evs @ new) ! i \<in> set new" by (simp add: nth_append)
    with assms(2) d show ?thesis by auto
  qed
qed

lemma startsAfterLast_call:
  assumes "startsAfterLast evs"
  shows "startsAfterLast (evs @ [EvDescribeStream (lastDispatched evs)])"
  unfolding startsAfterLast_def
proof (intro allI impI)
  fix i start
  assume i: "i < length (evs @ [EvDescribeStream (lastDispatched evs)])"
    and d: "(evs @ [EvDescribeStream (lastDispatched evs)]) ! i = EvDescribeStream start"
  show "start = lastDispatched (take i (evs @ [EvDescribeStream (lastDispatched evs)]))"
  proof (cases "i < length evs")
    case True
    with d assms show ?thesis by (simp add: startsAfterLast_def nth_append)
  next
    case False
    with i have "i = length evs" by simp
    with d show ?thesis by simp
  qed
qed

lemma ProcessStream_iteration_events:
  assumes "ProcessStream_iteration w arn tbl st = Break st' \<or>
           ProcessStream_iteration w arn tbl st = Continue st'"
  shows "\<exists>shards rest.
           events st' = (events st @ [EvDescribeStream (lastProcessedShardId st)])
                        @ map EvGoProcessShard shards @ rest \<and>
           (\<forall>ev \<in> set rest. \<not> isDescribe ev) \<and> dispatched rest = [] \<and>
           lastProcessedShardId st' =
             (if shards = [] then lastProcessedShardId st else Some (ShardId (last shards)))"
proof (cases "DescribeStream w (now st) (lastProcessedShardId st) arn")
  case (Inl err)
  with assms obtain msg where
    "events st' = (events st @ [EvDescribeStream (lastProcessedShardId st)])
                  @ map EvGoProcessShard [] @ [EvUnexpected msg]"
    "lastProcessedShardId st' = lastProcessedShardId st"
    by (auto simp: ProcessStream_iteration_def fetchShards_def emit_def Let_def)
  then show ?thesis
    by (intro exI[of _ "[]"] exI[of _ "[EvUnexpected msg]"]) (simp add: dispatched_def)
next
  case (Inr result)
  with assms obtain rest where
    "events st' = (events st @ [EvDescribeStream (lastProcessedShardId st)])
                  @ map EvGoProcessShard (Shards result) @ rest"
    "\<forall>ev \<in> set rest. \<not> isDescribe ev" "dispatched rest = []"
    "lastProcessedShardId st' =
       (if Shards result = [] then lastProcessedShardId st else Some (ShardId (last (Shards result))))"
    by (auto simp: ProcessStream_iteration_def fetchShards_def emit_def Let_def dispatch_events
          dispatch_last dispatched_def split: if_splits)
  then show ?thesis by blast
qed

lemma ProcessStream_iteration_start:
  assumes "ProcessStream_iteration w arn tbl st = Break st' \<or>
           ProcessStream_iteration w arn tbl st = Continue st'"
      and "lastProcessedShardId st = lastDispatched (events st)"
      and "startsAfterLast (events st)"
  shows "lastProcessedShardId st' = lastDispatched (events st') \<and> startsAfterLast (events st')"
proof -
  let ?call = "events st @ [EvDescribeStream (lastProcessedShardId st)]"
  have c: "dispatched (EvDescribeStream x # evs) = dispatched evs" for x evs
    by (simp add: dispatched_def)
  from ProcessStream_iteration_events[OF assms(1)]
  obtain shards rest where e: "events st' = ?call @ map EvGoProcessShard shards @ rest"
    and r: "\<forall>ev \<in> set rest. \<not> isDescribe ev" and d: "dispatched rest = []"
    and l: "lastProcessedShardId st' =
              (if shards = [] then lastProcessedShardId st else Some (ShardId (last shards)))"
    by blast
  have "startsAfterLast ?call"
    unfolding assms(2) by (rule startsAfterLast_call[OF assms(3)])
  then have "startsAfterLast (?call @ (map EvGoProcessShard shards @ rest))"
    by (rule startsAfterLast_append) (use r in auto)
  then have "startsAfterLast (events st')" by (simp add: e)
  moreover have "dispatched (events st') = dispatched (events st) @ shards"
    by (simp add: e c dispatched_append dispatched_spawn d)
  then have "lastDispatched (events st') =
               (if shards = [] then lastDispatched (events st) else Some (ShardId (last shards)))"
    by (simp add: lastDispatched_def)
  ultimately show ?thesis using l assms(2) by simp
qed

lemma ProcessStream_loop_start:
  "lastProcessedShardId st = lastDispatched (events st) \<Longrightarrow> startsAfterLast (events st) \<Longrightarrow>
   startsAfterLast (events (state (ProcessStream_loop fuel w arn tbl st)))"
proof (induction fuel arbitrary: st)
  case 0
  then show ?case by (simp add: state_def)
next
  case (Suc fuel)
  show ?case
  proof (cases "ProcessStream_iteration w arn tbl st")
    case (Break st')
    with ProcessStream_iteration_start[of w arn tbl st st'] Suc.prems
    show ?thesis by (simp add: state_def)
  next
    case (Continue st')
    with ProcessStream_iteration_start[of w arn tbl st st'] Suc.prems
    have "lastProcessedShardId st' = lastDispatched (events st')" "startsAfterLast (events st')"
      by simp_all
    from Suc.IH[OF this] Continue show ?thesis by simp
  qed
qed

text \<open>
  Claim C6, as the code has it. \<open>ProcessStream\<close> keeps no set of shard ids: it starts
  one worker for every shard of every \<open>DescribeStream\<close> answer, and asks each
  \<open>DescribeStream\<close> for the shards after the last one it handed out
  (\<open>ExclusiveStartShardId\<close>). So the shards handed out are the shards listed, in
  order, and no shard id is handed out twice provided no shard id is listed twice.
\<close>

theorem ProcessStream_dispatches_what_is_listed:
  "dispatched (events (state (ProcessStream fuel w streamArn srcTable))) =
     listed w streamArn (events (state (ProcessStream fuel w streamArn srcTable)))
   \<and> startsAfterLast (events (state (ProcessStream fuel w streamArn srcTable)))
   \<and> (distinct (map ShardId (listed w streamArn (events (state (ProcessStream fuel w streamArn srcTable)))))
      \<longrightarrow> distinct (map ShardId (dispatched (events (state (ProcessStream fuel w streamArn srcTable))))))"
proof -
  let ?init = "\<lparr>events = [], passAfterUserExit = False, lastProcessedShardId = None\<rparr>"
  have 1: "dispatched (events ?init) = listed w streamArn (events ?init)"
    by (simp add: dispatched_def listed_def)
  have 2: "lastProcessedShardId ?init = lastDispatched (events ?init)"
    by (simp add: lastDispatched_def dispatched_def)
  have 3: "startsAfterLast (events ?init)" by (simp add: startsAfterLast_def)
  from ProcessStream_loop_listed[OF 1] ProcessStream_loop_start[OF 2 3]
  show ?thesis unfolding ProcessStream_def by simp
qed

lemma listedOnce_run:
  "ProcessStream 2 listedOnce ''arn'' ''t'' =
     Returned \<lparr>events = [EvDescribeStream None, EvGoProcessShard shardA, EvGoProcessShard shardB,
                         EvReadUserExit True, EvDescribeStream (Some ''shard-B'')],
               passAfterUserExit = True, lastProcessedShardId = Some ''shard-B''\<rparr>"
  by (simp add: ProcessStream_def listedOnce_def quiet_def eval_nat_numeral ProcessStream_iteration_def
      fetchShards_def emit_def now_def shardB_def)

theorem ProcessStream_dispatches_what_is_listed_witness:
  "dispatched (events (state (ProcessStream 2 listedOnce ''arn'' ''t''))) = [shardA, shardB]
   \<and> distinct (map ShardId (dispatched (events (state (ProcessStream 2 listedOnce ''arn'' ''t'')))))"
proof -
  have l: "listed listedOnce ''arn'' (events (state (ProcessStream 2 listedOnce ''arn'' ''t''))) = [shardA, shardB]"
    unfolding listedOnce_run
    by (simp add: state_def listed_def listedAt_def upt_conv_Cons listedOnce_def quiet_def)
  then have "distinct (map ShardId (listed listedOnce ''arn'' (events (state (ProcessStream 2 listedOnce ''arn'' ''t'')))))"
    by (simp add: shardA_def shardB_def)
  with l ProcessStream_dispatches_what_is_listed[of 2 listedOnce "''arn''" "''t''"]
  show ?thesis by simp
qed

text \<open>
  Claim C6 as stated fails: when \<open>DescribeStream\<close> lists shard A in two successive
  answers, \<open>ProcessStream\<close> starts two workers for it.
\<close>

theorem ProcessStream_dispatches_twice:
  "dispatched (events (state (ProcessStream 2 repeating ''arn'' ''t''))) = [shardA, shardA]"
  by (simp add: ProcessStream_def repeating_def quiet_def eval_nat_numeral ProcessStream_iteration_def
      fetchShards_def emit_def now_def state_def dispatched_def)

subsection \<open>The shard worker\<close>

lemma Contains_append: "Contains s substr \<Longrightarrow> Contains (p @ s) substr"
  by (induction p) simp_all

lemma processRecords_events:
  "events (processRecords records st) = events st @ map EvProcessRecord records"
  by (induction records arbitrary: st) (simp_all add: emit_def)


lemma processRecords_retryCount:
  "retryCount (processRecords records st) = retryCount st"
  by (induction records arbitrary: st) (simp_all add: emit_def)

lemma processRecords_lastSeq:
  "lastEvaluatedSequenceNumber (processRecords records st) =
     (if records = [] then lastEvaluatedSequenceNumber st else SequenceNumber (last records))"
  by (induction records arbitrary: st) (simp_all add: emit_def)

lemma trimmed_iteration:
  assumes "alwaysTrimmedIterator w"
  shows "ProcessShard_iteration w shardId arn tbl st =
           Continue (st\<lparr>events := events st @ [EvGetShardIterator (lastEvaluatedSequenceNumber st)],
                       lastEvaluatedSequenceNumber := None\<rparr>)"
proof -
  let ?input = "case lastEvaluatedSequenceNumber st of None \<Rightarrow> TrimHorizon shardId arn
                | Some sequenceNumber \<Rightarrow> AfterSequenceNumber sequenceNumber shardId arn"
  from assms obtain err where e: "GetShardIterator w (now st) ?input = Inl err"
    "Contains err ''TrimmedDataAccessException''"
    unfolding alwaysTrimmedIterator_def by blast
  have "checkTrimmedDataError (''unexpected call to GetShardIterator: '' @ err)"
    unfolding checkTrimmedDataError_def by (rule Contains_append[OF e(2)])
  moreover have "getShardIterator w (now st) (lastEvaluatedSequenceNumber st) shardId arn =
                   Inl (''unexpected call to GetShardIterator: '' @ err)"
    using e(1) by (simp add: getShardIterator_def)
  ultimately show ?thesis
    by (simp add: ProcessShard_iteration_def emit_def Let_def del: append.simps)
qed

text \<open>
  Claim C10. The retry count guards the \<open>GetRecords\<close> failures only. When every
  \<open>GetShardIterator\<close> call fails with a trimmed-data error, each pass of the loop of
  \<open>ProcessShard\<close> asks for an iterator, resets \<open>lastEvaluatedSequenceNumber\<close> and goes
  round again: whatever the fuel, the loop is still running when it is used up, its
  events are the iterator requests alone (no anomaly, no sleep), and \<open>retryCount\<close>
  and \<open>passAfterUserExit\<close> are unchanged.
\<close>

theorem ProcessShard_trimmed_iterator_never_returns:
  assumes "alwaysTrimmedIterator w"
  shows "ProcessShard_loop fuel w shardId streamArn srcTable st =
           OutOfFuel (st\<lparr>events := events st @ map EvGetShardIterator
                                                (take fuel (lastEvaluatedSequenceNumber st # replicate fuel None)),
                        lastEvaluatedSequenceNumber :=
                          (if fuel = 0 then lastEvaluatedSequenceNumber st else None)\<rparr>)"
proof (induction fuel arbitrary: st)
  case 0
  show ?case by simp
next
  case (Suc fuel)
  have "take fuel (replicate (Suc fuel) (None :: string option)) = replicate fuel None"
    unfolding take_replicate by simp
  then have "take fuel (None # replicate fuel None) = replicate fuel (None :: string option)"
    by simp
  then show ?case
    by (simp add: trimmed_iteration[OF assms] Suc.IH)
qed

theorem ProcessShard_trimmed_iterator_never_returns_witness:
  "ProcessShard_loop 3 trimmedIterator ''shard-A'' ''arn'' ''t''
     \<lparr>events = [], passAfterUserExit = False, lastEvaluatedSequenceNumber = Some ''100'', retryCount = 0\<rparr> =
   OutOfFuel \<lparr>events = [EvGetShardIterator (Some ''100''), EvGetShardIterator None, EvGetShardIterator None],
              passAfterUserExit = False, lastEvaluatedSequenceNumber = None, retryCount = 0\<rparr>"
proof -
  have "alwaysTrimmedIterator trimmedIterator"
    by (simp add: alwaysTrimmedIterator_def trimmedIterator_def quiet_def)
  from ProcessShard_trimmed_iterator_never_returns[OF this, of 3]
  show ?thesis by (simp add: eval_nat_numeral)
qed


lemma polls_no_record: "EvProcessRecord r \<notin> set (polls w p t k)"
  by (induction k arbitrary: t) simp_all

lemma waitForParentShard_loop_shape:
  "\<exists>k\<le>fuel. (\<forall>i<k. ShardProcessed w (length evs + 2 * i) p \<noteq> Some True) \<and>
     ((k = fuel \<and> waitForParentShard_loop fuel w p evs = OutOfFuel (evs @ polls w p (length evs) k)) \<or>
      (k < fuel \<and> ShardProcessed w (length evs + 2 * k) p = Some True \<and>
       waitForParentShard_loop fuel w p evs =
         Returned (evs @ polls w p (length evs) k @ [EvReadShardProcessed p (Some True)])))"
proof (induction fuel arbitrary: evs)
  case 0
  show ?case by simp
next
  case (Suc fuel)
  show ?case
  proof (cases "ShardProcessed w (length evs) p = Some True")
    case True
    then show ?thesis by (intro exI[of _ 0]) simp
  next
    case False
    let ?evs = "evs @ [EvReadShardProcessed p (ShardProcessed w (length evs) p), EvSleep 6]"
    from False have step: "waitForParentShard_loop (Suc fuel) w p evs = waitForParentShard_loop fuel w p ?evs"
      by (cases "ShardProcessed w (length evs) p") (auto simp: Let_def)
    from Suc.IH[of ?evs] obtain k where k: "k \<le> fuel"
      "\<forall>i<k. ShardProcessed w (length ?evs + 2 * i) p \<noteq> Some True"
      "(k = fuel \<and> waitForParentShard_loop fuel w p ?evs = OutOfFuel (?evs @ polls w p (length ?evs) k)) \<or>
       (k < fuel \<and> ShardProcessed w (length ?evs + 2 * k) p = Some True \<and>
        waitForParentShard_loop fuel w p ?evs =
          Returned (?evs @ polls w p (length ?evs) k @ [EvReadShardProcessed p (Some True)]))"
      by blast
    have a: "\<forall>i<Suc k. ShardProcessed w (length evs + 2 * i) p \<noteq> Some True"
    proof (intro allI impI)
      fix i assume "i < Suc k"
      then show "ShardProcessed w (length evs + 2 * i) p \<noteq> Some True"
        using False k(2) by (cases i) auto
    qed
    from k(1,3) a show ?thesis
      unfolding step by (intro exI[of _ "Suc k"]) auto
  qed
qed

lemma ProcessShard_iteration_extends:
  assumes "ProcessShard_iteration w shardId arn tbl st = Break st' \<or>
           ProcessShard_iteration w shardId arn tbl st = Continue st'"
  shows "\<exists>new. events st' = events st @ EvGetShardIterator (lastEvaluatedSequenceNumber st) # new"
proof (cases "getShardIterator w (now st) (lastEvaluatedSequenceNumber st) shardId arn")
  case (Inl err)
  with assms show ?thesis
    by (auto simp: ProcessShard_iteration_def emit_def Let_def split: if_splits)
next
  case (Inr shardIterator)
  show ?thesis
  proof (cases "getRecords w (Suc (now st)) shardIterator")
    case (Inl err)
    with Inr assms show ?thesis
      by (auto simp: ProcessShard_iteration_def emit_def Let_def now_def split: if_splits)
  next
    case (Inr out)
    with \<open>getShardIterator w (now st) (lastEvaluatedSequenceNumber st) shardId arn = Inr shardIterator\<close> assms
    show ?thesis
      by (auto simp: ProcessShard_iteration_def emit_def Let_def now_def processRecords_events
          split: if_splits)
  qed
qed

lemma ProcessShard_loop_extends:
  "\<exists>new. events (state (ProcessShard_loop fuel w shardId arn tbl st)) = events st @ new \<and>
         (0 < fuel \<longrightarrow> (\<exists>rest. new = EvGetShardIterator (lastEvaluatedSequenceNumber st) # rest))"
proof (induction fuel arbitrary: st)
  case 0
  show ?case by (simp add: state_def)
next
  case (Suc fuel)
  show ?case
  proof (cases "ProcessShard_iteration w shardId arn tbl st")
    case (Break st')
    with ProcessShard_iteration_extends[of w shardId arn tbl st st']
    show ?thesis by (auto simp: state_def)
  next
    case (Continue st')
    with ProcessShard_iteration_extends[of w shardId arn tbl st st']
    obtain new where n: "events st' = events st @ EvGetShardIterator (lastEvaluatedSequenceNumber st) # new"
      by auto
    from Suc.IH[of st'] obtain new' where
      "events (state (ProcessShard_loop fuel w shardId arn tbl st')) = events st' @ new'" by blast
    with n Continue show ?thesis by simp
  qed
qed

lemma ProcessShard_events:
  "state (ProcessShard fuel w shard arn tbl) =
     (case waitForParentShard fuel w (ParentShardId shard) [] of
        OutOfFuel evs \<Rightarrow> evs
      | Returned evs \<Rightarrow>
          (case ProcessShard_loop fuel w (ShardId shard) arn tbl
                  \<lparr>events = evs @ [EvSetShardStatus (ShardId shard) False], passAfterUserExit = False,
                   lastEvaluatedSequenceNumber = None, retryCount = 0\<rparr> of
             OutOfFuel st \<Rightarrow> events st
           | Returned st \<Rightarrow> events st @ [EvSetShardStatus (ShardId shard) True]))"
  by (simp add: ProcessShard_def state_def Let_def split: run.splits)

lemma ProcessShard_after_wait:
  assumes "waitForParentShard fuel w (ParentShardId shard) [] = Returned evs"
  shows "\<exists>rest. state (ProcessShard fuel w shard arn tbl) = evs @ EvSetShardStatus (ShardId shard) False # rest \<and>
           (0 < fuel \<longrightarrow> (\<exists>rest'. rest = EvGetShardIterator None # rest'))"
proof -
  let ?st = "\<lparr>events = evs @ [EvSetShardStatus (ShardId shard) False], passAfterUserExit = False,
              lastEvaluatedSequenceNumber = None, retryCount = 0\<rparr>"
  from ProcessShard_loop_extends[of fuel w "ShardId shard" arn tbl ?st]
  obtain new where n: "events (state (ProcessShard_loop fuel w (ShardId shard) arn tbl ?st)) = events ?st @ new"
    "0 < fuel \<longrightarrow> (\<exists>rest. new = EvGetShardIterator None # rest)" by auto
  show ?thesis
  proof (cases "ProcessShard_loop fuel w (ShardId shard) arn tbl ?st")
    case (Returned st')
    with assms have "state (ProcessShard fuel w shard arn tbl) =
                       events st' @ [EvSetShardStatus (ShardId shard) True]"
      by (simp add: ProcessShard_events)
    moreover from n(1) Returned have "events st' = events ?st @ new" by (simp add: state_def)
    ultimately show ?thesis using n(2) by auto
  next
    case (OutOfFuel st')
    with assms have "state (ProcessShard fuel w shard arn tbl) = events st'"
      by (simp add: ProcessShard_events)
    moreover from n(1) OutOfFuel have "events st' = events ?st @ new" by (simp add: state_def)
    ultimately show ?thesis using n(2) by auto
  qed
qed

text \<open>
  Claim C1. For a shard with a parent, the events of \<open>ProcessShard\<close> begin with the
  rounds of \<open>waitForParentShard\<close>: a read of the parent's entry of \<open>ShardProcessed\<close>
  that finds it false or absent, then a sleep of 6 seconds. Either the worker is
  still waiting when the fuel is used up, or a read finds the entry true and the
  worker goes on with \<open>SetShardStatus(shardId, false)\<close> and its record loop. So every
  call of \<open>ProcessRecord\<close> comes after a read of the parent's entry that found it
  true. A shard with no parent starts with \<open>SetShardStatus(shardId, false)\<close> and the
  first iterator request.
\<close>

theorem ProcessShard_waits_for_parent:
  "(ParentShardId shard = Some p \<longrightarrow>
      (\<exists>k\<le>fuel. (\<forall>i<k. ShardProcessed w (2 * i) p \<noteq> Some True) \<and>
         ((k = fuel \<and> ProcessShard fuel w shard streamArn srcTable = OutOfFuel (polls w p 0 k)) \<or>
          (k < fuel \<and> ShardProcessed w (2 * k) p = Some True \<and>
           (\<exists>rest. state (ProcessShard fuel w shard streamArn srcTable) =
                      polls w p 0 k
                      @ [EvReadShardProcessed p (Some True), EvSetShardStatus (ShardId shard) False]
                      @ rest)))))
   \<and> (ParentShardId shard = Some p \<and> i < length (state (ProcessShard fuel w shard streamArn srcTable)) \<and>
       state (ProcessShard fuel w shard streamArn srcTable) ! i = EvProcessRecord r \<longrightarrow>
         (\<exists>j<i. state (ProcessShard fuel w shard streamArn srcTable) ! j =
                  EvReadShardProcessed p (Some True)))
   \<and> (ParentShardId shard = None \<and> 0 < fuel \<longrightarrow>
         (\<exists>rest. state (ProcessShard fuel w shard streamArn srcTable) =
                    [EvSetShardStatus (ShardId shard) False, EvGetShardIterator None] @ rest))"
proof -
  let ?tr = "state (ProcessShard fuel w shard streamArn srcTable)"
  have shape: "\<exists>k\<le>fuel. (\<forall>i<k. ShardProcessed w (2 * i) p \<noteq> Some True) \<and>
         ((k = fuel \<and> ProcessShard fuel w shard streamArn srcTable = OutOfFuel (polls w p 0 k)) \<or>
          (k < fuel \<and> ShardProcessed w (2 * k) p = Some True \<and>
           (\<exists>rest. ?tr = polls w p 0 k
                      @ [EvReadShardProcessed p (Some True), EvSetShardStatus (ShardId shard) False]
                      @ rest)))"
    if par: "ParentShardId shard = Some p"
  proof -
    from waitForParentShard_loop_shape[of fuel w "[]" p] obtain k where k: "k \<le> fuel"
      "\<forall>i<k. ShardProcessed w (2 * i) p \<noteq> Some True"
      "(k = fuel \<and> waitForParentShard_loop fuel w p [] = OutOfFuel (polls w p 0 k)) \<or>
       (k < fuel \<and> ShardProcessed w (2 * k) p = Some True \<and>
        waitForParentShard_loop fuel w p [] = Returned (polls w p 0 k @ [EvReadShardProcessed p (Some True)]))"
      by auto
    from k(3) show ?thesis
    proof
      assume "k = fuel \<and> waitForParentShard_loop fuel w p [] = OutOfFuel (polls w p 0 k)"
      with par have "ProcessShard fuel w shard streamArn srcTable = OutOfFuel (polls w p 0 k)"
        by (simp add: ProcessShard_def waitForParentShard_def)
      with k(1,2) \<open>k = fuel \<and> _\<close> show ?thesis by blast
    next
      assume a: "k < fuel \<and> ShardProcessed w (2 * k) p = Some True \<and>
        waitForParentShard_loop fuel w p [] = Returned (polls w p 0 k @ [EvReadShardProcessed p (Some True)])"
      with par have "waitForParentShard fuel w (ParentShardId shard) [] =
                       Returned (polls w p 0 k @ [EvReadShardProcessed p (Some True)])"
        by (simp add: waitForParentShard_def)
      from ProcessShard_after_wait[OF this, of streamArn srcTable]
      obtain rest where "?tr = polls w p 0 k
                      @ [EvReadShardProcessed p (Some True), EvSetShardStatus (ShardId shard) False]
                      @ rest" by auto
      with k(1,2) a show ?thesis by blast
    qed
  qed
  have gate: "\<exists>j<i. ?tr ! j = EvReadShardProcessed p (Some True)"
    if par: "ParentShardId shard = Some p" and i: "i < length ?tr" and r: "?tr ! i = EvProcessRecord r"
  proof -
    from shape[OF par] obtain k where k:
      "(k = fuel \<and> ProcessShard fuel w shard streamArn srcTable = OutOfFuel (polls w p 0 k)) \<or>
       (\<exists>rest. ?tr = polls w p 0 k
                      @ [EvReadShardProcessed p (Some True), EvSetShardStatus (ShardId shard) False]
                      @ rest)"
      by blast
    from k show ?thesis
    proof
      assume "k = fuel \<and> ProcessShard fuel w shard streamArn srcTable = OutOfFuel (polls w p 0 k)"
      then have "?tr = polls w p 0 k" by (simp add: state_def)
      with i r have "EvProcessRecord r \<in> set (polls w p 0 k)" by (metis nth_mem)
      then show ?thesis by (simp add: polls_no_record)
    next
      assume "\<exists>rest. ?tr = polls w p 0 k
                      @ [EvReadShardProcessed p (Some True), EvSetShardStatus (ShardId shard) False]
                      @ rest"
      then obtain rest where t: "?tr = polls w p 0 k
                      @ [EvReadShardProcessed p (Some True), EvSetShardStatus (ShardId shard) False]
                      @ rest" by blast
      have "\<not> i < length (polls w p 0 k)"
      proof
        assume "i < length (polls w p 0 k)"
        with t r have "EvProcessRecord r \<in> set (polls w p 0 k)"
          by (metis nth_append nth_mem)
        then show False by (simp add: polls_no_record)
      qed
      moreover have "i \<noteq> length (polls w p 0 k)"
        using t r by (auto simp: nth_append)
      ultimately have "length (polls w p 0 k) < i" by simp
      moreover have "?tr ! length (polls w p 0 k) = EvReadShardProcessed p (Some True)"
        unfolding t by (simp add: nth_append)
      ultimately show ?thesis by blast
    qed
  qed
  have free: "\<exists>rest. ?tr = [EvSetShardStatus (ShardId shard) False, EvGetShardIterator None] @ rest"
    if "ParentShardId shard = None" and "0 < fuel"
  proof -
    from that have "waitForParentShard fuel w (ParentShardId shard) [] = Returned []"
      by (simp add: waitForParentShard_def)
    from ProcessShard_after_wait[OF this, of streamArn srcTable] that show ?thesis by auto
  qed
  from shape gate free show ?thesis by blast
qed

lemma parentLater_run:
  "ProcessShard 3 parentLater shardB ''arn'' ''t'' =
     Returned [EvReadShardProcessed ''shard-A'' None, EvSleep 6,
               EvReadShardProcessed ''shard-A'' (Some False), EvSleep 6,
               EvReadShardProcessed ''shard-A'' (Some True),
               EvSetShardStatus ''shard-B'' False,
               EvGetShardIterator None, EvGetRecords (Some ''iterator''),
               EvProcessRecord insertEvent,
               EvSetShardStatus ''shard-B'' True]"
  by (simp add: ProcessShard_def waitForParentShard_def shardB_def parentLater_def quiet_def
      eval_nat_numeral ProcessShard_iteration_def getShardIterator_def getRecords_def emit_def now_def
      Let_def)

theorem ProcessShard_waits_for_parent_witness:
  "\<exists>j<8. state (ProcessShard 3 parentLater shardB ''arn'' ''t'') ! j =
            EvReadShardProcessed ''shard-A'' (Some True)"
proof -
  have "ParentShardId shardB = Some ''shard-A''" by (simp add: shardB_def)
  moreover have "8 < length (state (ProcessShard 3 parentLater shardB ''arn'' ''t''))"
    by (simp add: parentLater_run state_def)
  moreover have "state (ProcessShard 3 parentLater shardB ''arn'' ''t'') ! 8 = EvProcessRecord insertEvent"
    by (simp add: parentLater_run state_def)
  ultimately show ?thesis
    using ProcessShard_waits_for_parent[of shardB "''shard-A''" 3 parentLater "''arn''" "''t''" 8 insertEvent]
    by blast
qed

lemma trimmed_records_retry:
  assumes "getShardIterator w (now st) (lastEvaluatedSequenceNumber st) shardId arn = Inr shardIterator"
      and "getRecords w (Suc (now st)) shardIterator = Inl err"
      and "checkTrimmedDataError err" and "retryCount st < 5"
  shows "ProcessShard_iteration w shardId arn tbl st =
           Continue (st\<lparr>events := events st @ [EvGetShardIterator (lastEvaluatedSequenceNumber st),
                                                 EvGetRecords shardIterator],
                       lastEvaluatedSequenceNumber := None, retryCount := retryCount st + 1\<rparr>)"
  using assms by (simp add: ProcessShard_iteration_def emit_def Let_def now_def)

lemma trimmed_records_give_up:
  assumes "getShardIterator w (now st) (lastEvaluatedSequenceNumber st) shardId arn = Inr shardIterator"
      and "getRecords w (Suc (now st)) shardIterator = Inl err"
      and "\<not> retryCount st < 5"
  shows "ProcessShard_iteration w shardId arn tbl st =
           Break (st\<lparr>events := events st @ [EvGetShardIterator (lastEvaluatedSequenceNumber st),
                                              EvGetRecords shardIterator,
                                              EvUnexpected (''Couldn't fetch records for table '' @ tbl
                                                            @ '': '' @ err)]\<rparr>)"
  using assms by (simp add: ProcessShard_iteration_def emit_def Let_def now_def)

lemma records_fetched_reset:
  assumes "getShardIterator w (now st) (lastEvaluatedSequenceNumber st) shardId arn = Inr shardIterator"
      and "getRecords w (Suc (now st)) shardIterator = Inr out"
      and "ProcessShard_iteration w shardId arn tbl st = Break st' \<or>
           ProcessShard_iteration w shardId arn tbl st = Continue st'"
  shows "retryCount st' = 0"
  using assms
  by (auto simp: ProcessShard_iteration_def emit_def Let_def now_def processRecords_retryCount
      split: if_splits)

lemma always_trimmed_records_run:
  assumes g: "iteratorGranted w" and t: "alwaysTrimmedRecords w"
  shows "retryCount st = 5 - int n \<Longrightarrow> n \<le> 5 \<Longrightarrow> n < fuel \<Longrightarrow>
         \<exists>st' new. ProcessShard_loop fuel w shardId arn tbl st = Returned st' \<and>
           events st' = events st @ new \<and>
           calls isGetRecords new = Suc n \<and> calls isUnexpected new = 1 \<and> calls isSleep new = 0 \<and>
           retryCount st' = 5"
proof (induction n arbitrary: st fuel)
  case 0
  then obtain fuel' where f: "fuel = Suc fuel'" by (cases fuel) auto
  from g obtain shardIterator where
    i: "getShardIterator w (now st) (lastEvaluatedSequenceNumber st) shardId arn = Inr shardIterator"
    unfolding iteratorGranted_def getShardIterator_def Let_def by (metis sum.simps(6))
  from t obtain err where e: "getRecords w (Suc (now st)) shardIterator = Inl err"
    unfolding alwaysTrimmedRecords_def getRecords_def by (metis sum.simps(5))
  from 0 have "\<not> retryCount st < 5" by simp
  from trimmed_records_give_up[OF i e this] 0 show ?case
    unfolding f by (simp add: calls_def)
next
  case (Suc n)
  then obtain fuel' where f: "fuel = Suc fuel'" by (cases fuel) auto
  from g obtain shardIterator where
    i: "getShardIterator w (now st) (lastEvaluatedSequenceNumber st) shardId arn = Inr shardIterator"
    unfolding iteratorGranted_def getShardIterator_def Let_def by (metis sum.simps(6))
  from t obtain err0 where e0: "GetRecords w (Suc (now st)) shardIterator = Inl err0"
    "Contains err0 ''TrimmedDataAccessException''"
    unfolding alwaysTrimmedRecords_def by blast
  have e: "getRecords w (Suc (now st)) shardIterator = Inl (''unexpected call to GetRecords: '' @ err0)"
    using e0(1) by (simp add: getRecords_def)
  have c: "checkTrimmedDataError (''unexpected call to GetRecords: '' @ err0)"
    unfolding checkTrimmedDataError_def by (rule Contains_append[OF e0(2)])
  let ?st1 = "st\<lparr>events := events st @ [EvGetShardIterator (lastEvaluatedSequenceNumber st),
                                         EvGetRecords shardIterator],
               lastEvaluatedSequenceNumber := None, retryCount := retryCount st + 1\<rparr>"
  from Suc.prems have "retryCount st < 5" by simp
  from trimmed_records_retry[OF i e c this]
  have step: "ProcessShard_iteration w shardId arn tbl st = Continue ?st1" .
  have "retryCount ?st1 = 5 - int n" using Suc.prems by simp
  from Suc.IH[OF this, of fuel'] Suc.prems f obtain st' new where
    r: "ProcessShard_loop fuel' w shardId arn tbl ?st1 = Returned st'"
       "events st' = events ?st1 @ new"
       "calls isGetRecords new = Suc n" "calls isUnexpected new = 1" "calls isSleep new = 0"
       "retryCount st' = 5"
    by auto
  show ?case
    unfolding f
    apply (rule exI[of _ st'])
    apply (rule exI[of _ "[EvGetShardIterator (lastEvaluatedSequenceNumber st), EvGetRecords shardIterator] @ new"])
    using step r by (simp add: calls_def)
qed

text \<open>
  Claim C4. When \<open>getRecords\<close> fails with a trimmed-data error and \<open>retryCount\<close> is
  below 5, the pass resets \<open>lastEvaluatedSequenceNumber\<close>, adds one to \<open>retryCount\<close>
  and goes round again; a pass whose \<open>getRecords\<close> succeeds leaves \<open>retryCount\<close> at 0;
  when \<open>getRecords\<close> fails and \<open>retryCount\<close> is not below 5, the pass records one
  anomaly and breaks. So when every iterator request succeeds and every \<open>GetRecords\<close>
  call fails with a trimmed-data error, the loop started with \<open>retryCount = 0\<close>
  returns after 6 \<open>GetRecords\<close> calls, the first and 5 retries, with one anomaly, no
  sleep and \<open>retryCount = 5\<close>.
\<close>

theorem ProcessShard_trimmed_records_retries:
  "(getShardIterator w (now st) (lastEvaluatedSequenceNumber st) shardId streamArn = Inr shardIterator \<and>
    getRecords w (Suc (now st)) shardIterator = Inl err \<and>
    checkTrimmedDataError err \<and> retryCount st < 5 \<longrightarrow>
      ProcessShard_iteration w shardId streamArn srcTable st =
        Continue (st\<lparr>events := events st @ [EvGetShardIterator (lastEvaluatedSequenceNumber st),
                                              EvGetRecords shardIterator],
                    lastEvaluatedSequenceNumber := None, retryCount := retryCount st + 1\<rparr>))
   \<and> (getShardIterator w (now st) (lastEvaluatedSequenceNumber st) shardId streamArn = Inr shardIterator \<and>
       getRecords w (Suc (now st)) shardIterator = Inr out \<and>
       (ProcessShard_iteration w shardId streamArn srcTable st = Break st' \<or>
        ProcessShard_iteration w shardId streamArn srcTable st = Continue st') \<longrightarrow>
         retryCount st' = 0)
   \<and> (getShardIterator w (now st) (lastEvaluatedSequenceNumber st) shardId streamArn = Inr shardIterator \<and>
       getRecords w (Suc (now st)) shardIterator = Inl err \<and> \<not> retryCount st < 5 \<longrightarrow>
         ProcessShard_iteration w shardId streamArn srcTable st =
           Break (st\<lparr>events := events st @ [EvGetShardIterator (lastEvaluatedSequenceNumber st),
                                              EvGetRecords shardIterator,
                                              EvUnexpected (''Couldn't fetch records for table ''
                                                            @ srcTable @ '': '' @ err)]\<rparr>))
   \<and> (iteratorGranted w \<and> alwaysTrimmedRecords w \<and> retryCount st = 0 \<and> 6 \<le> fuel \<longrightarrow>
         (\<exists>st'. ProcessShard_loop fuel w shardId streamArn srcTable st = Returned st' \<and>
            calls isGetRecords (since st st') = 6 \<and> calls isUnexpected (since st st') = 1 \<and>
            calls isSleep (since st st') = 0 \<and> retryCount st' = 5))"
proof (intro conjI impI)
  assume "getShardIterator w (now st) (lastEvaluatedSequenceNumber st) shardId streamArn = Inr shardIterator \<and>
    getRecords w (Suc (now st)) shardIterator = Inl err \<and>
    checkTrimmedDataError err \<and> retryCount st < 5"
  then show "ProcessShard_iteration w shardId streamArn srcTable st =
        Continue (st\<lparr>events := events st @ [EvGetShardIterator (lastEvaluatedSequenceNumber st),
                                              EvGetRecords shardIterator],
                    lastEvaluatedSequenceNumber := None, retryCount := retryCount st + 1\<rparr>)"
    using trimmed_records_retry by blast
next
  assume "getShardIterator w (now st) (lastEvaluatedSequenceNumber st) shardId streamArn = Inr shardIterator \<and>
       getRecords w (Suc (now st)) shardIterator = Inr out \<and>
       (ProcessShard_iteration w shardId streamArn srcTable st = Break st' \<or>
        ProcessShard_iteration w shardId streamArn srcTable st = Continue st')"
  then show "retryCount st' = 0"
    using records_fetched_reset by blast
next
  assume "getShardIterator w (now st) (lastEvaluatedSequenceNumber st) shardId streamArn = Inr shardIterator \<and>
       getRecords w (Suc (now st)) shardIterator = Inl err \<and> \<not> retryCount st < 5"
  then show "ProcessShard_iteration w shardId streamArn srcTable st =
           Break (st\<lparr>events := events st @ [EvGetShardIterator (lastEvaluatedSequenceNumber st),
                                              EvGetRecords shardIterator,
                                              EvUnexpected (''Couldn't fetch records for table ''
                                                            @ srcTable @ '': '' @ err)]\<rparr>)"
    using trimmed_records_give_up by blast
next
  assume a: "iteratorGranted w \<and> alwaysTrimmedRecords w \<and> retryCount st = 0 \<and> 6 \<le> fuel"
  then have "retryCount st = 5 - int 5" "(5::nat) \<le> 5" "5 < fuel" by simp_all
  from always_trimmed_records_run[OF _ _ this, of w shardId streamArn srcTable] a
  obtain st' new where "ProcessShard_loop fuel w shardId streamArn srcTable st = Returned st'"
    "events st' = events st @ new" "calls isGetRecords new = 6" "calls isUnexpected new = 1"
    "calls isSleep new = 0" "retryCount st' = 5"
    by auto
  then show "\<exists>st'. ProcessShard_loop fuel w shardId streamArn srcTable st = Returned st' \<and>
            calls isGetRecords (since st st') = 6 \<and> calls isUnexpected (since st st') = 1 \<and>
            calls isSleep (since st st') = 0 \<and> retryCount st' = 5"
    by (auto simp: since_def)
qed

theorem ProcessShard_trimmed_records_retries_witness:
  "\<exists>st'. ProcessShard_loop 6 trimmedRecords ''shard-A'' ''arn'' ''t'' freshWorker = Returned st' \<and>
      calls isGetRecords (events st') = 6 \<and> calls isUnexpected (events st') = 1 \<and>
      calls isSleep (events st') = 0 \<and> retryCount st' = 5"
proof -
  have "iteratorGranted trimmedRecords"
    by (simp add: iteratorGranted_def trimmedRecords_def quiet_def)
  moreover have "alwaysTrimmedRecords trimmedRecords"
    by (simp add: alwaysTrimmedRecords_def trimmedRecords_def quiet_def)
  moreover have "retryCount freshWorker = 0" by (simp add: freshWorker_def)
  moreover have s: "since freshWorker st' = events st'" for st' :: worker
    by (simp add: since_def freshWorker_def)
  ultimately have "\<exists>st'. ProcessShard_loop 6 trimmedRecords ''shard-A'' ''arn'' ''t'' freshWorker = Returned st' \<and>
      calls isGetRecords (since freshWorker st') = 6 \<and> calls isUnexpected (since freshWorker st') = 1 \<and>
      calls isSleep (since freshWorker st') = 0 \<and> retryCount st' = 5"
    using ProcessShard_trimmed_records_retries[of trimmedRecords freshWorker "''shard-A''" "''arn''"
        None "''e''" "''t''" undefined freshWorker 6]
    by blast
  then show ?thesis by (simp add: s)
qed

subsection \<open>After the user has asked to exit\<close>




























subsection \<open>The cutover advisor\<close>

lemma prevReading_simps [simp]: "prevReading rs 0 = 0" "prevReading rs (Suc k) = rs ! k"
  by (simp_all add: prevReading_def)

lemma wrap64_id: "- (2 ^ 63) \<le> x \<Longrightarrow> x < 2 ^ 63 \<Longrightarrow> wrap64 x = x"
  by (simp add: wrap64_def)

lemma go_rem_nat: "go_rem (int n) 5 = int (n mod 5)"
  by (cases "n = 0") (simp_all add: go_rem_def zmod_int)

lemma sum_deltas: "a \<le> b \<Longrightarrow> sum_list (map (minuteDelta rs) [a..<b]) = prevReading rs b - prevReading rs a"
proof (induction b)
  case 0
  then show ?case by simp
next
  case (Suc b)
  show ?case
  proof (cases "a = Suc b")
    case True
    then show ?thesis by simp
  next
    case False
    with Suc.prems have "a \<le> b" by simp
    with Suc.IH show ?thesis by (simp add: minuteDelta_def)
  qed
qed

lemma prevReading_bounds:
  assumes "plausible rs" and "k \<le> length rs"
  shows "0 \<le> prevReading rs k \<and> prevReading rs k < 2 ^ 56"
proof (cases k)
  case 0
  then show ?thesis by simp
next
  case (Suc j)
  with assms(2) have "rs ! j \<in> set rs" by simp
  with assms(1) Suc show ?thesis by (auto simp: plausible_def)
qed

lemma mod5_distinct: "j < n \<Longrightarrow> n \<le> j + 4 \<Longrightarrow> j mod 5 \<noteq> n mod (5::nat)"
proof
  assume a: "j < n" "n \<le> j + 4" "j mod 5 = n mod 5"
  then have "(n - j) mod 5 = 0" by (metis mod_eq_dvd_iff_nat less_imp_le_nat mod_0_imp_dvd dvd_imp_mod_0)
  with a(1,2) show False by (auto simp: mod_eq_0_iff_dvd dest!: dvd_imp_le)
qed

lemma cutover_tick_step:
  assumes inv: "advisorInv rs n s" and n: "n < length rs" and pl: "plausible rs"
  shows "\<exists>s'. cutover_tick (rs ! n) s = Inr (s', optimumSpec rs n, rs ! n) \<and>
              advisorInv rs (Suc n) s'"
proof -
  let ?p = "prevReading rs"
  define d where "d = minuteDelta rs n"
  from inv have t: "timer s = int n" and till: "tillLastMin s = ?p n" and len: "length (arr s) = 5"
    and ring: "\<forall>j<n. n \<le> j + 5 \<longrightarrow> arr s ! (j mod 5) = minuteDelta rs j"
    and zeros: "\<forall>i<5. n \<le> i \<longrightarrow> arr s ! i = 0"
    and l5: "lastFiveMin s = ?p n - ?p (n - 5)"
    and f5: "firstFiveMin s = ?p (min n 5)"
    by (simp_all add: advisorInv_def sum_deltas)
  have b: "0 \<le> ?p k \<and> ?p k < 2 ^ 56" if "k \<le> length rs" for k
    using prevReading_bounds[OF pl that] .
  have bn: "0 \<le> ?p n \<and> ?p n < 2 ^ 56" "0 \<le> ?p (n - 4) \<and> ?p (n - 4) < 2 ^ 56"
    "0 \<le> ?p (n - 5) \<and> ?p (n - 5) < 2 ^ 56" "0 \<le> rs ! n \<and> rs ! n < 2 ^ 56"
    "0 \<le> ?p (min n 5) \<and> ?p (min n 5) < 2 ^ 56" "0 \<le> ?p (min (Suc n) 5) \<and> ?p (min (Suc n) 5) < 2 ^ 56"
    using b[of n] b[of "n - 4"] b[of "n - 5"] b[of "Suc n"] b[of "min n 5"] b[of "min (Suc n) 5"] n
    by simp_all
  have dd: "d = rs ! n - ?p n" by (simp add: d_def minuteDelta_def)
  have old: "arr s ! (n mod 5) = ?p (n - 4) - ?p (n - 5)"
  proof (cases "5 \<le> n")
    case True
    then have "n - 5 < n" "n \<le> (n - 5) + 5" "(n - 5) mod 5 = n mod 5"
      by (simp_all add: le_mod_geq)
    with ring have "arr s ! (n mod 5) = minuteDelta rs (n - 5)" by metis
    moreover from True have "n - 4 = Suc (n - 5)" by simp
    ultimately show ?thesis by (simp add: minuteDelta_def)
  next
    case False
    then have "n mod 5 = n" "n < 5" by simp_all
    with zeros have "arr s ! (n mod 5) = 0" by simp
    with False show ?thesis by simp
  qed
  have w1: "wrap64 (lastFiveMin s - arr s ! (n mod 5)) = ?p n - ?p (n - 4)"
    unfolding l5 old using bn by (simp add: wrap64_id)
  have wd: "wrap64 (rs ! n - tillLastMin s) = d"
    unfolding till dd using bn by (simp add: wrap64_id)
  have w2: "wrap64 (tillLastMin s + d) = rs ! n"
    unfolding till dd using bn by (simp add: wrap64_id)
  have w3: "wrap64 (?p n - ?p (n - 4) + d) = rs ! n - ?p (n - 4)"
    unfolding dd using bn by (simp add: wrap64_id)
  have last: "lastFiveDeltas rs n = rs ! n - ?p (n - 4)"
    by (simp add: lastFiveDeltas_def sum_deltas del: upt_Suc)
  have first: "firstFiveDeltas rs n = ?p (min (Suc n) 5)"
    by (simp add: firstFiveDeltas_def sum_deltas del: upt_Suc)
  have w4: "(if timer s < 5 then wrap64 (firstFiveMin s + d) else firstFiveMin s) = ?p (min (Suc n) 5)"
  proof (cases "n < 5")
    case True
    then have "min n 5 = n" "min (Suc n) 5 = Suc n" by simp_all
    with True show ?thesis unfolding f5 t dd using bn by (simp add: wrap64_id)
  next
    case False
    then have "min n 5 = 5" "min (Suc n) 5 = 5" by simp_all
    with False show ?thesis unfolding f5 t by simp
  qed
  have w5: "wrap64 ((rs ! n - ?p (n - 4)) * 100) = (rs ! n - ?p (n - 4)) * 100"
    using bn by (intro wrap64_id) simp_all
  have w6: "wrap64 (5 * ?p (min (Suc n) 5)) = 5 * ?p (min (Suc n) 5)"
    using bn by (intro wrap64_id) simp_all
  from pl n have "int n + 1 < 2 ^ 63" by (simp add: plausible_def)
  then have w7: "wrap64 (int n + 1) = int (Suc n)" by (simp add: wrap64_id)
  have idx: "nat (int (n mod 5)) = n mod 5" by simp
  let ?s' = "\<lparr>timer = int (Suc n), firstFiveMin = ?p (min (Suc n) 5),
              lastFiveMin = rs ! n - ?p (n - 4), tillLastMin = rs ! n,
              arr = (arr s)[n mod 5 := d]\<rparr>"
  have opt: "((rs ! n - ?p (n - 4)) * 100 \<le> 5 * ?p (min (Suc n) 5) \<or> d = 0) = optimumSpec rs n"
    by (simp add: optimumSpec_def last first d_def mult.commute)
  have tick: "cutover_tick (rs ! n) s = Inr (?s', optimumSpec rs n, rs ! n)"
    unfolding cutover_tick_def Let_def t go_rem_nat idx
    using len
    by (simp only: w1 wd w2 w3 w4[unfolded t] w5 w6 w7 opt) simp
  have "advisorInv rs (Suc n) ?s'"
    unfolding advisorInv_def
  proof (intro conjI)
    show "timer ?s' = int (Suc n)" by simp
    show "tillLastMin ?s' = ?p (Suc n)" by simp
    show "length (arr ?s') = 5" using len by simp
    show "\<forall>j<Suc n. Suc n \<le> j + 5 \<longrightarrow> arr ?s' ! (j mod 5) = minuteDelta rs j"
    proof (intro allI impI)
      fix j assume j: "j < Suc n" "Suc n \<le> j + 5"
      show "arr ?s' ! (j mod 5) = minuteDelta rs j"
      proof (cases "j = n")
        case True
        with len show ?thesis by (simp add: d_def)
      next
        case False
        with j have jn: "j < n" "n \<le> j + 4" by simp_all
        then have "j mod 5 \<noteq> n mod 5" by (rule mod5_distinct)
        moreover from jn ring have "arr s ! (j mod 5) = minuteDelta rs j" by simp
        ultimately show ?thesis by simp
      qed
    qed
    show "\<forall>i<5. Suc n \<le> i \<longrightarrow> arr ?s' ! i = 0"
    proof (intro allI impI)
      fix i :: nat assume i: "i < 5" "Suc n \<le> i"
      then have "n mod 5 \<noteq> i" by simp
      moreover from i zeros have "arr s ! i = 0" by simp
      ultimately show "arr ?s' ! i = 0" by simp
    qed
    show "lastFiveMin ?s' = sum_list (map (minuteDelta rs) [Suc n - 5..<Suc n])"
      by (simp add: sum_deltas del: upt_Suc)
    show "firstFiveMin ?s' = sum_list (map (minuteDelta rs) [0..<min (Suc n) 5])"
      by (simp add: sum_deltas del: upt_Suc)
  qed
  with tick show ?thesis by blast
qed

lemma ticks_step: "a < b \<Longrightarrow>
  ticks rs a b = [EvSleep 60, EvReadUserExit False, EvUpdateProgress (optimumSpec rs a) False (rs ! a)]
                 @ ticks rs (Suc a) b"
  by (simp add: ticks_def upt_conv_Cons)

lemma cutoverHelper_loop_run:
  assumes pl: "plausible rs"
  shows "advisorInv rs n s \<Longrightarrow> n \<le> length rs \<Longrightarrow> k = length rs - n \<Longrightarrow>
         \<exists>s'. advisorInv rs (length rs) s' \<and> cutover_after (drop n rs) s = Inr s' \<and>
           cutoverHelper_loop (map (Pair False) (drop n rs) @ tail) s =
             (case cutoverHelper_loop tail s' of
                Inl p \<Rightarrow> Inl p
              | Inr evs \<Rightarrow> Inr (ticks rs n (length rs) @ evs))"
proof (induction k arbitrary: n s)
  case 0
  then have "drop n rs = []" "n = length rs" by simp_all
  with 0 show ?case by (auto simp: ticks_def split: sum.splits)
next
  case (Suc k)
  then have n: "n < length rs" by simp
  then have d: "drop n rs = rs ! n # drop (Suc n) rs" by (simp add: Cons_nth_drop_Suc)
  from cutover_tick_step[OF Suc.prems(1) n pl] obtain s1 where
    s1: "cutover_tick (rs ! n) s = Inr (s1, optimumSpec rs n, rs ! n)" "advisorInv rs (Suc n) s1"
    by blast
  from Suc.prems n have "Suc n \<le> length rs" "k = length rs - Suc n" by simp_all
  from Suc.IH[OF s1(2) this] obtain s' where
    s': "advisorInv rs (length rs) s'" "cutover_after (drop (Suc n) rs) s1 = Inr s'"
        "cutoverHelper_loop (map (Pair False) (drop (Suc n) rs) @ tail) s1 =
           (case cutoverHelper_loop tail s' of
              Inl p \<Rightarrow> Inl p
            | Inr evs \<Rightarrow> Inr (ticks rs (Suc n) (length rs) @ evs))"
    by blast
  show ?case
    apply (rule exI[of _ s'])
    unfolding d using s1(1) s' ticks_step[OF n, of rs]
    by (simp split: sum.splits)
qed

lemma advisorInv_init: "advisorInv rs 0 cutover_init"
proof -
  have "[0, 0, 0, 0, 0 :: int] = replicate 5 0" by (simp add: eval_nat_numeral)
  then have "[0, 0, 0, 0, 0 :: int] ! i = 0" if "i < 5" for i
    using that by simp
  then show ?thesis by (simp add: advisorInv_def cutover_init_def)
qed

text \<open>
  Claim C7. For plausible readings, at every tick the flag handed to
  \<open>updateProgress\<close> is true exactly when 100 times the sum of the most recent five
  one-minute deltas is at most 5 times the sum of the first five one-minute deltas,
  or the most recent delta is zero; the advisor stops at the first wake-up that reads
  \<open>UserExit\<close> as true; and its variables are the ring of the last five deltas
  indexed by \<open>timer mod 5\<close>, their sum \<open>lastFiveMin\<close>, and the sum \<open>firstFiveMin\<close> of the
  first five deltas.
\<close>

theorem cutoverHelper_optimum:
  "plausible rs \<longrightarrow>
     cutoverHelper r0 (map (Pair False) rs) =
       Inr (EvUpdateProgress False True r0 # ticks rs 0 (length rs))
     \<and> cutoverHelper r0 (map (Pair False) rs @ (True, r) # later) =
       Inr (EvUpdateProgress False True r0 # ticks rs 0 (length rs)
            @ [EvSleep 60, EvReadUserExit True])
     \<and> (\<exists>s. cutover_after rs cutover_init = Inr s \<and> advisorInv rs (length rs) s)"
proof
  assume pl: "plausible rs"
  from cutoverHelper_loop_run[OF pl advisorInv_init, of "length rs" "[]"]
  have 1: "cutoverHelper r0 (map (Pair False) rs) =
       Inr (EvUpdateProgress False True r0 # ticks rs 0 (length rs))"
    by (auto simp: cutoverHelper_def)
  from cutoverHelper_loop_run[OF pl advisorInv_init, of "length rs" "(True, r) # later"]
  have 2: "cutoverHelper r0 (map (Pair False) rs @ (True, r) # later) =
       Inr (EvUpdateProgress False True r0 # ticks rs 0 (length rs)
            @ [EvSleep 60, EvReadUserExit True])"
    by (auto simp: cutoverHelper_def)
  from cutoverHelper_loop_run[OF pl advisorInv_init, of "length rs" "[]"]
  have 3: "\<exists>s. cutover_after rs cutover_init = Inr s \<and> advisorInv rs (length rs) s"
    by auto
  from 1 2 3 show "cutoverHelper r0 (map (Pair False) rs) =
       Inr (EvUpdateProgress False True r0 # ticks rs 0 (length rs))
     \<and> cutoverHelper r0 (map (Pair False) rs @ (True, r) # later) =
       Inr (EvUpdateProgress False True r0 # ticks rs 0 (length rs)
            @ [EvSleep 60, EvReadUserExit True])
     \<and> (\<exists>s. cutover_after rs cutover_init = Inr s \<and> advisorInv rs (length rs) s)"
    by blast
qed

lemma plausible_decay: "plausible decay"
  by (simp add: plausible_def decay_def)

lemma optimumSpec_decay:
  "map (optimumSpec decay) [0..<10] = [False, False, False, False, False, True, True, True, True, True]"
  by (simp add: optimumSpec_def lastFiveDeltas_def firstFiveDeltas_def minuteDelta_def decay_def
      upt_conv_Cons)

theorem cutoverHelper_optimum_witness:
  "cutoverHelper 0 (map (Pair False) decay) =
     Inr [EvUpdateProgress False True 0,
          EvSleep 60, EvReadUserExit False, EvUpdateProgress False False 1000,
          EvSleep 60, EvReadUserExit False, EvUpdateProgress False False 2000,
          EvSleep 60, EvReadUserExit False, EvUpdateProgress False False 3000,
          EvSleep 60, EvReadUserExit False, EvUpdateProgress False False 4000,
          EvSleep 60, EvReadUserExit False, EvUpdateProgress False False 5000,
          EvSleep 60, EvReadUserExit False, EvUpdateProgress True False 5000,
          EvSleep 60, EvReadUserExit False, EvUpdateProgress True False 5000,
          EvSleep 60, EvReadUserExit False, EvUpdateProgress True False 5000,
          EvSleep 60, EvReadUserExit False, EvUpdateProgress True False 5000,
          EvSleep 60, EvReadUserExit False, EvUpdateProgress True False 5000]"
proof -
  have "length decay = 10" by (simp add: decay_def)
  moreover have "ticks decay 0 10 =
     [EvSleep 60, EvReadUserExit False, EvUpdateProgress False False 1000,
          EvSleep 60, EvReadUserExit False, EvUpdateProgress False False 2000,
          EvSleep 60, EvReadUserExit False, EvUpdateProgress False False 3000,
          EvSleep 60, EvReadUserExit False, EvUpdateProgress False False 4000,
          EvSleep 60, EvReadUserExit False, EvUpdateProgress False False 5000,
          EvSleep 60, EvReadUserExit False, EvUpdateProgress True False 5000,
          EvSleep 60, EvReadUserExit False, EvUpdateProgress True False 5000,
          EvSleep 60, EvReadUserExit False, EvUpdateProgress True False 5000,
          EvSleep 60, EvReadUserExit False, EvUpdateProgress True False 5000,
          EvSleep 60, EvReadUserExit False, EvUpdateProgress True False 5000]"
    using optimumSpec_decay by (simp add: ticks_def upt_conv_Cons) (simp add: decay_def)
  ultimately show ?thesis
    using cutoverHelper_optimum[of decay 0] plausible_decay by simp
qed

end
